theory Spec2Isabelle
  imports Main
begin

section \<open>JavaScript values\<close>

text \<open>
  The utilities work on plain JavaScript data. A property key is either a name or an array
  index; a value is \<open>undefined\<close>, \<open>null\<close>, a boolean, a number, a string, an array or a
  plain object. An object is kept as its list of own enumerable properties in enumeration
  order. Numbers are the integer-valued ones; functions, class instances and prototype
  chains are outside this universe.
\<close>

datatype key = Name string | Index nat

datatype jsval =
    JUndefined
  | JNull
  | JBool bool
  | JNum int
  | JStr string
  | JArr "jsval list"
  | JObj "(key \<times> jsval) list"

text \<open>The truthiness test of \<open>if (value)\<close>.\<close>

fun truthy :: "jsval \<Rightarrow> bool" where
  "truthy JUndefined = False"
| "truthy JNull = False"
| "truthy (JBool b) = b"
| "truthy (JNum n) = (n \<noteq> 0)"
| "truthy (JStr s) = (s \<noteq> [])"
| "truthy (JArr xs) = True"
| "truthy (JObj kvs) = True"

text \<open>
  The assignment \<open>xs[i] = v\<close> on an array: inside the array it replaces the element, past
  the end it extends the array, and the skipped positions read as \<open>undefined\<close>.
\<close>

definition array_assign :: "jsval list \<Rightarrow> nat \<Rightarrow> jsval \<Rightarrow> jsval list" where
  "array_assign xs i v =
     (if i < length xs then xs[i := v]
      else xs @ replicate (i - length xs) JUndefined @ [v])"

section \<open>Sequential asynchronous iteration\<close>

text \<open>
  What one call of the callback does: it returns a promise that is fulfilled with a value,
  a promise that is rejected with an error, a promise that never settles, or it throws
  before returning a promise. The callback may read and change outside state, which is
  threaded through as \<open>'s\<close>. The array is not changed while the helper runs.
\<close>

datatype settle = Resolves jsval | Rejects jsval | Never | Throws jsval

text \<open>The state of the promise the helper returns, once nothing more can happen.\<close>

datatype promise = Fulfilled jsval | Rejected jsval | Pending

type_synonym 's callback = "jsval \<Rightarrow> nat \<Rightarrow> jsval list \<Rightarrow> 's \<Rightarrow> settle \<times> 's"

type_synonym 's reducer = "jsval \<Rightarrow> jsval \<Rightarrow> nat \<Rightarrow> jsval list \<Rightarrow> 's \<Rightarrow> settle \<times> 's"

text \<open>
  A run of a helper: the returned promise, the log of callback invocations (index and
  what the invocation did, in invocation order) and the outside state at the end.
\<close>

record 's run =
  outcome :: promise
  calls :: "(nat \<times> settle) list"
  final :: 's

text \<open>
  \<open>forEachPromise\<close> of \<open>promise-utils.ts\<close>: the inner function \<open>next(index)\<close>. A
  callback result that is exactly \<open>false\<close> resolves the helper at once.
\<close>

function forEachPromise_next ::
  "'s callback \<Rightarrow> jsval list \<Rightarrow> nat \<Rightarrow> (nat \<times> settle) list \<Rightarrow> 's \<Rightarrow> 's run" where
  "forEachPromise_next callback array index log s =
     (if index < length array then
        (case callback (array ! index) index array s of
           (Resolves result, s') \<Rightarrow>
             if result = JBool False
             then \<lparr>outcome = Fulfilled JUndefined,
                   calls = log @ [(index, Resolves result)], final = s'\<rparr>
             else forEachPromise_next callback array (index + 1)
                    (log @ [(index, Resolves result)]) s'
         | (Rejects error, s') \<Rightarrow>
             \<lparr>outcome = Rejected error, calls = log @ [(index, Rejects error)], final = s'\<rparr>
         | (Never, s') \<Rightarrow>
             \<lparr>outcome = Pending, calls = log @ [(index, Never)], final = s'\<rparr>
         | (Throws error, s') \<Rightarrow>
             \<lparr>outcome = Rejected error, calls = log @ [(index, Throws error)], final = s'\<rparr>)
      else \<lparr>outcome = Fulfilled JUndefined, calls = log, final = s\<rparr>)"
  by pat_completeness auto
termination
  by (relation "measure (\<lambda>(callback, array, index, log, s). length array - index)") auto

definition forEachPromise :: "jsval list \<Rightarrow> 's callback \<Rightarrow> 's \<Rightarrow> 's run" where
  "forEachPromise array callback s = forEachPromise_next callback array 0 [] s"

text \<open>
  \<open>forEachPromise\<close> of the earlier \<open>index.js\<close>: the same loop without the test for
  \<open>false\<close>.
\<close>

function forEachPromise_js_next ::
  "'s callback \<Rightarrow> jsval list \<Rightarrow> nat \<Rightarrow> (nat \<times> settle) list \<Rightarrow> 's \<Rightarrow> 's run" where
  "forEachPromise_js_next callback array index log s =
     (if index < length array then
        (case callback (array ! index) index array s of
           (Resolves result, s') \<Rightarrow>
             forEachPromise_js_next callback array (index + 1)
               (log @ [(index, Resolves result)]) s'
         | (Rejects error, s') \<Rightarrow>
             \<lparr>outcome = Rejected error, calls = log @ [(index, Rejects error)], final = s'\<rparr>
         | (Never, s') \<Rightarrow>
             \<lparr>outcome = Pending, calls = log @ [(index, Never)], final = s'\<rparr>
         | (Throws error, s') \<Rightarrow>
             \<lparr>outcome = Rejected error, calls = log @ [(index, Throws error)], final = s'\<rparr>)
      else \<lparr>outcome = Fulfilled JUndefined, calls = log, final = s\<rparr>)"
  by pat_completeness auto
termination
  by (relation "measure (\<lambda>(callback, array, index, log, s). length array - index)") auto

definition forEachPromise_js :: "jsval list \<Rightarrow> 's callback \<Rightarrow> 's \<Rightarrow> 's run" where
  "forEachPromise_js array callback s = forEachPromise_js_next callback array 0 [] s"

text \<open>\<open>mapPromise\<close>: \<open>results[index] = result\<close>, then the next index.\<close>

function mapPromise_next ::
  "'s callback \<Rightarrow> jsval list \<Rightarrow> nat \<Rightarrow> jsval list \<Rightarrow> (nat \<times> settle) list \<Rightarrow> 's \<Rightarrow> 's run"
  where
  "mapPromise_next callback array index results log s =
     (if index < length array then
        (case callback (array ! index) index array s of
           (Resolves result, s') \<Rightarrow>
             mapPromise_next callback array (index + 1) (array_assign results index result)
               (log @ [(index, Resolves result)]) s'
         | (Rejects error, s') \<Rightarrow>
             \<lparr>outcome = Rejected error, calls = log @ [(index, Rejects error)], final = s'\<rparr>
         | (Never, s') \<Rightarrow>
             \<lparr>outcome = Pending, calls = log @ [(index, Never)], final = s'\<rparr>
         | (Throws error, s') \<Rightarrow>
             \<lparr>outcome = Rejected error, calls = log @ [(index, Throws error)], final = s'\<rparr>)
      else \<lparr>outcome = Fulfilled (JArr results), calls = log, final = s\<rparr>)"
  by pat_completeness auto
termination
  by (relation "measure (\<lambda>(callback, array, index, results, log, s). length array - index)")
    auto

definition mapPromise :: "jsval list \<Rightarrow> 's callback \<Rightarrow> 's \<Rightarrow> 's run" where
  "mapPromise array callback s = mapPromise_next callback array 0 [] [] s"

text \<open>\<open>reducePromise\<close>: the accumulator is the value the previous call resolved with.\<close>

function reducePromise_next ::
  "'s reducer \<Rightarrow> jsval list \<Rightarrow> nat \<Rightarrow> jsval \<Rightarrow> (nat \<times> settle) list \<Rightarrow> 's \<Rightarrow> 's run" where
  "reducePromise_next callback array index accumulator log s =
     (if index < length array then
        (case callback accumulator (array ! index) index array s of
           (Resolves result, s') \<Rightarrow>
             reducePromise_next callback array (index + 1) result
               (log @ [(index, Resolves result)]) s'
         | (Rejects error, s') \<Rightarrow>
             \<lparr>outcome = Rejected error, calls = log @ [(index, Rejects error)], final = s'\<rparr>
         | (Never, s') \<Rightarrow>
             \<lparr>outcome = Pending, calls = log @ [(index, Never)], final = s'\<rparr>
         | (Throws error, s') \<Rightarrow>
             \<lparr>outcome = Rejected error, calls = log @ [(index, Throws error)], final = s'\<rparr>)
      else \<lparr>outcome = Fulfilled accumulator, calls = log, final = s\<rparr>)"
  by pat_completeness auto
termination
  by (relation "measure (\<lambda>(callback, array, index, accumulator, log, s). length array - index)")
    auto

definition reducePromise :: "jsval list \<Rightarrow> 's reducer \<Rightarrow> jsval \<Rightarrow> 's \<Rightarrow> 's run" where
  "reducePromise array callback initialValue s =
     reducePromise_next callback array 0 initialValue [] s"

text \<open>\<open>findPromise\<close>: a truthy result resolves with the element at that index.\<close>

function findPromise_next ::
  "'s callback \<Rightarrow> jsval list \<Rightarrow> nat \<Rightarrow> (nat \<times> settle) list \<Rightarrow> 's \<Rightarrow> 's run" where
  "findPromise_next callback array index log s =
     (if index < length array then
        (case callback (array ! index) index array s of
           (Resolves result, s') \<Rightarrow>
             if truthy result
             then \<lparr>outcome = Fulfilled (array ! index),
                   calls = log @ [(index, Resolves result)], final = s'\<rparr>
             else findPromise_next callback array (index + 1)
                    (log @ [(index, Resolves result)]) s'
         | (Rejects error, s') \<Rightarrow>
             \<lparr>outcome = Rejected error, calls = log @ [(index, Rejects error)], final = s'\<rparr>
         | (Never, s') \<Rightarrow>
             \<lparr>outcome = Pending, calls = log @ [(index, Never)], final = s'\<rparr>
         | (Throws error, s') \<Rightarrow>
             \<lparr>outcome = Rejected error, calls = log @ [(index, Throws error)], final = s'\<rparr>)
      else \<lparr>outcome = Fulfilled JUndefined, calls = log, final = s\<rparr>)"
  by pat_completeness auto
termination
  by (relation "measure (\<lambda>(callback, array, index, log, s). length array - index)") auto

definition findPromise :: "jsval list \<Rightarrow> 's callback \<Rightarrow> 's \<Rightarrow> 's run" where
  "findPromise array callback s = findPromise_next callback array 0 [] s"

text \<open>
  What the specification asks of a sequential run over \<open>n\<close> elements: the callback is
  invoked at the indices \<open>0, 1, 2, \<dots>\<close> in this order, once each and at most \<open>n\<close> times;
  every invocation but the last returned a promise that was fulfilled before the next
  invocation; and an invocation whose promise is rejected is the last one, the helper's
  promise being rejected with the same error.
\<close>

definition is_resolved :: "settle \<Rightarrow> bool" where
  "is_resolved r = (case r of Resolves v \<Rightarrow> True | _ \<Rightarrow> False)"

definition sequential_run :: "nat \<Rightarrow> 's run \<Rightarrow> bool" where
  "sequential_run n r \<longleftrightarrow>
     map fst (calls r) = [0..<length (calls r)] \<and>
     length (calls r) \<le> n \<and>
     (\<forall>c \<in> set (butlast (calls r)). is_resolved (snd c)) \<and>
     (\<forall>k e. (k, Rejects e) \<in> set (calls r) \<longrightarrow>
        outcome r = Rejected e \<and> length (calls r) = Suc k)"

text \<open>The log so far, when the loop is about to look at \<open>index\<close>.\<close>

definition resolved_prefix :: "nat \<Rightarrow> (nat \<times> settle) list \<Rightarrow> bool" where
  "resolved_prefix index log \<longleftrightarrow>
     map fst log = [0..<index] \<and> (\<forall>c \<in> set log. is_resolved (snd c))"

text \<open>Sample inputs: callbacks that count their invocations in the outside state.\<close>

definition sample_array :: "jsval list" where
  "sample_array = [JNum 10, JNum 20, JNum 30]"

definition counting_callback :: "nat callback" where
  "counting_callback value index array n = (Resolves (JNum (int index)), Suc n)"

definition false_callback :: "nat callback" where
  "false_callback value index array n = (Resolves (JBool False), Suc n)"

definition reject_second_callback :: "nat callback" where
  "reject_second_callback value index array n =
     (if index = 1 then (Rejects (JStr ''boom''), Suc n) else (Resolves JUndefined, Suc n))"

definition reject_second_reducer :: "nat reducer" where
  "reject_second_reducer accumulator value index array n =
     (if index = 1 then (Rejects (JStr ''boom''), Suc n) else (Resolves accumulator, Suc n))"

section \<open>Markdown with front matter\<close>

text \<open>
  Strings are lists of characters, one character per code unit; the code units modelled
  are those below 256. The string methods the parser uses follow.
\<close>

text \<open>\<open>s.startsWith(p)\<close>.\<close>

definition startsWith :: "string \<Rightarrow> string \<Rightarrow> bool" where
  "startsWith s p = (take (length p) s = p)"

text \<open>\<open>s.indexOf(p)\<close>: the first position where \<open>p\<close> occurs, \<open>None\<close> for \<open>-1\<close>.\<close>

fun indexOf :: "string \<Rightarrow> string \<Rightarrow> nat option" where
  "indexOf [] p = (if p = [] then Some 0 else None)"
| "indexOf (c # cs) p =
     (if startsWith (c # cs) p then Some 0 else map_option Suc (indexOf cs p))"

text \<open>
  \<open>s.substring(a, b)\<close>: both positions are cut to the length of the string and exchanged
  when the first is the larger; \<open>s.substring(a)\<close> runs to the end.
\<close>

definition substring :: "string \<Rightarrow> nat \<Rightarrow> nat \<Rightarrow> string" where
  "substring s a b =
     (let a' = min a (length s); b' = min b (length s)
      in take (max a' b' - min a' b') (drop (min a' b') s))"

definition substring_from :: "string \<Rightarrow> nat \<Rightarrow> string" where
  "substring_from s a = drop a s"

text \<open>\<open>s.replace(p, r)\<close> with a string pattern: only the first occurrence is replaced.\<close>

definition replace_first :: "string \<Rightarrow> string \<Rightarrow> string \<Rightarrow> string" where
  "replace_first s p r =
     (case indexOf s p of
        None \<Rightarrow> s
      | Some i \<Rightarrow> take i s @ r @ drop (i + length p) s)"

definition LF :: string where
  "LF = [CHR 0x0A]"

definition CRLF :: string where
  "CRLF = [CHR 0x0D, CHR 0x0A]"

text \<open>The class \<open>\s\<close> of the regular expression, on code units below 256.\<close>

definition is_space :: "char \<Rightarrow> bool" where
  "is_space c \<longleftrightarrow>
     c \<in> set [CHR 0x09, CHR 0x0A, CHR 0x0B, CHR 0x0C, CHR 0x0D, CHR 0x20, CHR 0xA0]"

text \<open>
  \<open>s.match(/^\s*?(\n|$)/)\<close>: the shortest run of white space at the start of \<open>s\<close> that is
  followed by a line feed or by the end of the string. The result is the matched text
  \<open>match[0]\<close>, the line feed included, or \<open>None\<close> when there is no match.
\<close>

fun match_after_delim :: "string \<Rightarrow> string option" where
  "match_after_delim [] = Some []"
| "match_after_delim (c # cs) =
     (if c = CHR 0x0A then Some [c]
      else if is_space c then map_option (Cons c) (match_after_delim cs)
      else None)"

text \<open>
  The decoders of the three front matter formats come from libraries; each maps a string
  to a value or throws.
\<close>

record 'e codecs =
  yaml_load :: "string \<Rightarrow> 'e + jsval"
  toml_parse :: "string \<Rightarrow> 'e + jsval"
  json_parse :: "string \<Rightarrow> 'e + jsval"

record 'e fm_type =
  fm_type_name :: string
  startDelimiter :: string
  endDelimiter :: string
  parse :: "string \<Rightarrow> 'e + jsval"

definition frontMatterTypes :: "'e codecs \<Rightarrow> 'e fm_type list" where
  "frontMatterTypes c =
     [\<lparr>fm_type_name = ''yaml'', startDelimiter = ''---'' @ LF, endDelimiter = LF @ ''---'',
        parse = yaml_load c\<rparr>,
      \<lparr>fm_type_name = ''toml'', startDelimiter = ''+++'' @ LF, endDelimiter = LF @ ''+++'',
        parse = toml_parse c\<rparr>,
      \<lparr>fm_type_name = ''json'', startDelimiter = ''{'' @ LF, endDelimiter = LF @ ''}'',
        parse = json_parse c\<rparr>]"

record document =
  frontmatter :: jsval
  markdown :: string

text \<open>
  The body of the \<open>_.forEach\<close> over the front matter types, for one type: it may replace
  \<open>frontmatter\<close> and \<open>markdown\<close>, and a decoder that throws ends the whole call.
\<close>

definition fm_step :: "string \<Rightarrow> 'e fm_type \<Rightarrow> document \<Rightarrow> 'e + document" where
  "fm_step string fmType doc =
     (if startsWith string (startDelimiter fmType) then
        (case indexOf string (endDelimiter fmType) of
           None \<Rightarrow> Inr doc
         | Some index \<Rightarrow>
             (let endDelimEndIndex = index + length (endDelimiter fmType);
                  afterEndDelim = substring_from string endDelimEndIndex
              in case match_after_delim afterEndDelim of
                   None \<Rightarrow> Inr doc
                 | Some afterEndDelimString \<Rightarrow>
                     (let data = substring string (length (startDelimiter fmType)) index
                      in case parse fmType data of
                           Inl e \<Rightarrow> Inl e
                         | Inr value \<Rightarrow>
                             Inr \<lparr>frontmatter = value,
                                  markdown =
                                    substring_from afterEndDelim (length afterEndDelimString)\<rparr>)))
      else Inr doc)"

fun fm_forEach :: "string \<Rightarrow> 'e fm_type list \<Rightarrow> document \<Rightarrow> 'e + document" where
  "fm_forEach string [] doc = Inr doc"
| "fm_forEach string (fmType # rest) doc =
     (case fm_step string fmType doc of
        Inl e \<Rightarrow> Inl e
      | Inr doc' \<Rightarrow> fm_forEach string rest doc')"

definition parseMarkdownWithFrontMatter :: "'e codecs \<Rightarrow> string \<Rightarrow> 'e + document" where
  "parseMarkdownWithFrontMatter c input =
     (let string = replace_first input CRLF LF
      in fm_forEach string (frontMatterTypes c) \<lparr>frontmatter = JNull, markdown = string\<rparr>)"

text \<open>
  A front matter style matches a text when the text starts with the start delimiter, the
  end delimiter occurs in it, and what follows its first occurrence is accepted by the
  regular expression.
\<close>

definition style_matches :: "string \<Rightarrow> string \<Rightarrow> string \<Rightarrow> bool" where
  "style_matches string startDelim endDelim =
     (startsWith string startDelim \<and>
      (case indexOf string endDelim of
         None \<Rightarrow> False
       | Some index \<Rightarrow>
           match_after_delim (substring_from string (index + length endDelim)) \<noteq> None))"

definition no_style_matches :: "string \<Rightarrow> bool" where
  "no_style_matches string =
     (\<not> style_matches string (''---'' @ LF) (LF @ ''---'') \<and>
      \<not> style_matches string (''+++'' @ LF) (LF @ ''+++'') \<and>
      \<not> style_matches string (''{'' @ LF) (LF @ ''}''))"

text \<open>
  Sample inputs: the document of the specification's example, and decoders that know
  the one YAML text of that document.
\<close>

definition sample_document :: string where
  "sample_document =
     ''---'' @ LF @ ''title: Hi'' @ LF @ ''---'' @ LF @ LF @ ''Body text'' @ LF"

definition sample_codecs :: "unit codecs" where
  "sample_codecs =
     \<lparr>yaml_load = (\<lambda>s. if s = ''title: Hi'' then Inr (JObj [(Name ''title'', JStr ''Hi'')])
                        else Inl ()),
      toml_parse = (\<lambda>s. Inl ()),
      json_parse = (\<lambda>s. Inl ())\<rparr>"

definition windows_text :: string where
  "windows_text = ''a'' @ CRLF @ ''b''"

definition plain_text :: string where
  "plain_text = ''No frontmatter here''"

section \<open>Property access on plain data\<close>

text \<open>
  \<open>object[key]\<close> and \<open>hasOwnProperty\<close> on the values of the model. An array has its
  elements and \<open>length\<close>, a string its characters and \<open>length\<close>, an object its listed
  properties; inherited properties are not modelled. Arrays are dense: a position that
  was skipped by an assignment holds \<open>undefined\<close>.
\<close>

fun hasOwn :: "jsval \<Rightarrow> key \<Rightarrow> bool" where
  "hasOwn (JObj kvs) k = (map_of kvs k \<noteq> None)"
| "hasOwn (JArr xs) (Index i) = (i < length xs)"
| "hasOwn (JArr xs) (Name n) = (n = ''length'')"
| "hasOwn (JStr s) (Index i) = (i < length s)"
| "hasOwn (JStr s) (Name n) = (n = ''length'')"
| "hasOwn v k = False"

fun getProp :: "jsval \<Rightarrow> key \<Rightarrow> jsval" where
  "getProp (JObj kvs) k = (case map_of kvs k of Some v \<Rightarrow> v | None \<Rightarrow> JUndefined)"
| "getProp (JArr xs) (Index i) = (if i < length xs then xs ! i else JUndefined)"
| "getProp (JArr xs) (Name n) = (if n = ''length'' then JNum (int (length xs)) else JUndefined)"
| "getProp (JStr s) (Index i) = (if i < length s then JStr [s ! i] else JUndefined)"
| "getProp (JStr s) (Name n) = (if n = ''length'' then JNum (int (length s)) else JUndefined)"
| "getProp v k = JUndefined"

definition isNil :: "jsval \<Rightarrow> bool" where
  "isNil v \<longleftrightarrow> v = JUndefined \<or> v = JNull"

definition isUndefined :: "jsval \<Rightarrow> bool" where
  "isUndefined v \<longleftrightarrow> v = JUndefined"

definition isArray :: "jsval \<Rightarrow> bool" where
  "isArray v = (case v of JArr xs \<Rightarrow> True | _ \<Rightarrow> False)"

definition isPlainObject :: "jsval \<Rightarrow> bool" where
  "isPlainObject v = (case v of JObj kvs \<Rightarrow> True | _ \<Rightarrow> False)"

definition isObject :: "jsval \<Rightarrow> bool" where
  "isObject v \<longleftrightarrow> isArray v \<or> isPlainObject v"

definition isIndex :: "key \<Rightarrow> bool" where
  "isIndex k = (case k of Index i \<Rightarrow> True | Name n \<Rightarrow> False)"

text \<open>
  The assignment \<open>object[key] = value\<close> on an object. An existing property keeps its
  place. A new property named by an array index goes among the index keys in ascending
  order, before every other name; a new property with another name goes last.
\<close>

fun obj_insert :: "(key \<times> jsval) list \<Rightarrow> key \<Rightarrow> jsval \<Rightarrow> (key \<times> jsval) list" where
  "obj_insert [] k v = [(k, v)]"
| "obj_insert ((Index j, w) # kvs) (Index i) v =
     (if i < j then (Index i, v) # (Index j, w) # kvs
      else (Index j, w) # obj_insert kvs (Index i) v)"
| "obj_insert ((Name n, w) # kvs) (Index i) v = (Index i, v) # (Name n, w) # kvs"
| "obj_insert (kv # kvs) (Name n) v = kv # obj_insert kvs (Name n) v"

definition obj_replace :: "(key \<times> jsval) list \<Rightarrow> key \<Rightarrow> jsval \<Rightarrow> (key \<times> jsval) list" where
  "obj_replace kvs k v = map (\<lambda>(k', v'). if k' = k then (k', v) else (k', v')) kvs"

definition obj_assign :: "(key \<times> jsval) list \<Rightarrow> key \<Rightarrow> jsval \<Rightarrow> (key \<times> jsval) list" where
  "obj_assign kvs k v =
     (if map_of kvs k \<noteq> None then obj_replace kvs k v else obj_insert kvs k v)"

section \<open>The lodash functions the utilities call\<close>

text \<open>
  \<open>_.get\<close>, \<open>_.has\<close>, \<open>_.set\<close> and \<open>_.at\<close> are library functions. They are modelled after
  lodash 4.17 on the values above, for paths that are given as lists of keys; the
  parsing of a dotted path string into its keys is not modelled.
\<close>

text \<open>
  \<open>baseGet\<close>: follow the keys while the object is neither \<open>null\<close> nor \<open>undefined\<close>; the
  result is \<open>undefined\<close> when the path is empty or could not be followed to its end.
\<close>

fun baseGet_walk :: "jsval \<Rightarrow> key list \<Rightarrow> jsval" where
  "baseGet_walk object [] = object"
| "baseGet_walk object (k # path) =
     (if isNil object then JUndefined else baseGet_walk (getProp object k) path)"

definition baseGet :: "jsval \<Rightarrow> key list \<Rightarrow> jsval" where
  "baseGet object path = (if path = [] then JUndefined else baseGet_walk object path)"

text \<open>\<open>_.get(object, path)\<close>, without a default value.\<close>

definition lodash_get :: "jsval \<Rightarrow> key list \<Rightarrow> jsval" where
  "lodash_get object path = (if isNil object then JUndefined else baseGet object path)"

text \<open>
  \<open>_.has(object, path)\<close>: every key of the path is an own property of the object reached
  so far. The second chance \<open>hasPath\<close> gives to an index inside the length of a sparse
  array never applies to the dense arrays of the model.
\<close>

fun hasPath :: "jsval \<Rightarrow> key list \<Rightarrow> bool" where
  "hasPath object [] = False"
| "hasPath object [k] = (\<not> isNil object \<and> hasOwn object k)"
| "hasPath object (k # path) =
     (\<not> isNil object \<and> hasOwn object k \<and> hasPath (getProp object k) path)"

definition lodash_has :: "jsval \<Rightarrow> key list \<Rightarrow> bool" where
  "lodash_has object path \<longleftrightarrow> \<not> isNil object \<and> hasPath object path"

text \<open>
  \<open>assignValue(object, key, value)\<close> on an object or an array. A named property on an
  array cannot be written down in the model: the result is \<open>None\<close> there.
\<close>

fun assignValue :: "jsval \<Rightarrow> key \<Rightarrow> jsval \<Rightarrow> jsval option" where
  "assignValue (JObj kvs) k v = Some (JObj (obj_assign kvs k v))"
| "assignValue (JArr xs) (Index i) v = Some (JArr (array_assign xs i v))"
| "assignValue object k v = None"

definition unsafe_key :: "key \<Rightarrow> bool" where
  "unsafe_key k \<longleftrightarrow> k = Name ''__proto__'' \<or> k = Name ''constructor'' \<or> k = Name ''prototype''"

text \<open>
  The loop of \<open>baseSet\<close>, from the object \<open>nested\<close> on: a key that is not the last one
  keeps the object it finds there, or puts an empty array (the next key is an index) or
  an empty object in its place, and the loop goes on inside it. The loop stops at one of
  the three keys lodash refuses to write. The result is \<open>nested\<close> after the assignments.
\<close>

fun baseSet_loop :: "jsval \<Rightarrow> key list \<Rightarrow> jsval \<Rightarrow> jsval option" where
  "baseSet_loop nested [] value = Some nested"
| "baseSet_loop nested [k] value =
     (if unsafe_key k then Some nested else assignValue nested k value)"
| "baseSet_loop nested (k # next # path) value =
     (if unsafe_key k then Some nested
      else
        (let objValue = getProp nested k;
             newValue = (if isObject objValue then objValue
                         else if isIndex next then JArr [] else JObj [])
         in case baseSet_loop newValue (next # path) value of
              None \<Rightarrow> None
            | Some child \<Rightarrow> assignValue nested k child))"

text \<open>
  \<open>_.set(object, path, value)\<close>. It changes \<open>object\<close> in place; the model returns the
  object after the call.
\<close>

definition lodash_set :: "jsval \<Rightarrow> key list \<Rightarrow> jsval \<Rightarrow> jsval option" where
  "lodash_set object path value =
     (if \<not> isObject object then Some object else baseSet_loop object path value)"

text \<open>\<open>_.at(object, paths)\<close>: the value at each path.\<close>

definition lodash_at :: "jsval \<Rightarrow> key list list \<Rightarrow> jsval list" where
  "lodash_at object paths =
     map (\<lambda>path. if isNil object then JUndefined else lodash_get object path) paths"

text \<open>\<open>_.first(array)\<close>.\<close>

definition first :: "jsval list \<Rightarrow> jsval" where
  "first xs = (case xs of [] \<Rightarrow> JUndefined | x # _ \<Rightarrow> x)"

text \<open>\<open>_.reject(array, predicate)\<close>.\<close>

definition reject :: "(jsval \<Rightarrow> bool) \<Rightarrow> jsval list \<Rightarrow> jsval list" where
  "reject p xs = filter (\<lambda>x. \<not> p x) xs"

section \<open>Path-addressed object utilities\<close>

text \<open>\<open>getFirst\<close>; a call without \<open>defaultValue\<close> passes \<open>undefined\<close>.\<close>

definition getFirst :: "jsval \<Rightarrow> key list list \<Rightarrow> jsval \<Rightarrow> jsval" where
  "getFirst object paths defaultValue =
     (let result = first (reject isUndefined (lodash_at object paths))
      in if isUndefined result then defaultValue else result)"

text \<open>
  \<open>copy\<close> and \<open>copyIfNotSet\<close>. The target object is changed in place; the model returns
  the target after the call. The source and the target are separate values, and
  \<open>transform\<close> is an optional pure function.
\<close>

definition copy ::
  "jsval \<Rightarrow> key list \<Rightarrow> jsval \<Rightarrow> key list \<Rightarrow> (jsval \<Rightarrow> jsval) option \<Rightarrow> jsval option" where
  "copy sourceObject sourcePath targetObject targetPath transform =
     (if lodash_has sourceObject sourcePath then
        (let value = lodash_get sourceObject sourcePath;
             value = (case transform of Some f \<Rightarrow> f value | None \<Rightarrow> value)
         in lodash_set targetObject targetPath value)
      else Some targetObject)"

definition copyIfNotSet ::
  "jsval \<Rightarrow> key list \<Rightarrow> jsval \<Rightarrow> key list \<Rightarrow> (jsval \<Rightarrow> jsval) option \<Rightarrow> jsval option" where
  "copyIfNotSet sourceObject sourcePath targetObject targetPath transform =
     (if \<not> lodash_has targetObject targetPath
      then copy sourceObject sourcePath targetObject targetPath transform
      else Some targetObject)"

text \<open>Sample inputs for the object utilities.\<close>

definition sample_source :: jsval where
  "sample_source = JObj [(Name ''a'', JObj [(Name ''b'', JNum 1)]), (Name ''n'', JNull)]"

definition sample_target :: jsval where
  "sample_target = JObj [(Name ''x'', JNum 5)]"

definition times_ten :: "jsval \<Rightarrow> jsval" where
  "times_ten v = (case v of JNum n \<Rightarrow> JNum (n * 10) | _ \<Rightarrow> v)"

section \<open>Deep tree mapper\<close>

text \<open>
  The options of \<open>mapDeep\<close> after their defaults are filled in: \<open>postOrder\<close> is
  \<open>false\<close>, \<open>iterateCollections\<close> and \<open>iteratePrimitives\<close> (\<open>iterateScalars\<close> in the
  earlier version) are \<open>true\<close> unless given.
\<close>

record options =
  postOrder :: bool
  iterateCollections :: bool
  iteratePrimitives :: bool

definition default_options :: options where
  "default_options = \<lparr>postOrder = False, iterateCollections = True, iteratePrimitives = True\<rparr>"

definition postOrder_options :: options where
  "postOrder_options = \<lparr>postOrder = True, iterateCollections = True, iteratePrimitives = True\<rparr>"

text \<open>
  The iteratee receives the value, its key path and the stack of its ancestors; it may
  read and change outside state, threaded through as \<open>'s\<close>.
\<close>

type_synonym 's iteratee = "jsval \<Rightarrow> key list \<Rightarrow> jsval list \<Rightarrow> 's \<Rightarrow> jsval \<times> 's"

text \<open>
  \<open>_.mapValues(object, iteratee)\<close> and \<open>_.map(array, iteratee)\<close>, for an iteratee that
  threads the outside state and may fail to return: the properties and the elements are
  visited from left to right, and the iteratee is given the value and its key.
\<close>

fun mapValues ::
  "(jsval \<Rightarrow> key \<Rightarrow> 's \<Rightarrow> (jsval \<times> 's) option) \<Rightarrow> (key \<times> jsval) list \<Rightarrow> 's \<Rightarrow>
     ((key \<times> jsval) list \<times> 's) option" where
  "mapValues f [] s = Some ([], s)"
| "mapValues f ((key, val) # rest) s =
     (case f val key s of
        None \<Rightarrow> None
      | Some (val', s') \<Rightarrow>
          (case mapValues f rest s' of
             None \<Rightarrow> None
           | Some (rest', s'') \<Rightarrow> Some ((key, val') # rest', s'')))"

fun map_from ::
  "(jsval \<Rightarrow> key \<Rightarrow> 's \<Rightarrow> (jsval \<times> 's) option) \<Rightarrow> jsval list \<Rightarrow> nat \<Rightarrow> 's \<Rightarrow>
     (jsval list \<times> 's) option" where
  "map_from f [] index s = Some ([], s)"
| "map_from f (val # rest) index s =
     (case f val (Index index) s of
        None \<Rightarrow> None
      | Some (val', s') \<Rightarrow>
          (case map_from f rest (index + 1) s' of
             None \<Rightarrow> None
           | Some (rest', s'') \<Rightarrow> Some (val' # rest', s'')))"

definition lodash_map ::
  "(jsval \<Rightarrow> key \<Rightarrow> 's \<Rightarrow> (jsval \<times> 's) option) \<Rightarrow> jsval list \<Rightarrow> 's \<Rightarrow>
     (jsval list \<times> 's) option" where
  "lodash_map f xs s = map_from f xs 0 s"

text \<open>
  \<open>_mapDeep(value, keyPath, stack)\<close>. In pre-order the iteratee may put a larger
  container in the place of every node it is given, and then the recursion never ends;
  so the recursion depth is bounded by the first argument, and \<open>None\<close> stands for a call
  that needs a deeper recursion.
\<close>

primrec mapDeep_rec ::
  "nat \<Rightarrow> options \<Rightarrow> 's iteratee \<Rightarrow> jsval \<Rightarrow> key list \<Rightarrow> jsval list \<Rightarrow> 's \<Rightarrow>
     (jsval \<times> 's) option" where
  "mapDeep_rec 0 opts iteratee value keyPath stack s = None"
| "mapDeep_rec (Suc n) opts iteratee value keyPath stack s =
     (let invokeIteratee =
            (if isPlainObject value \<or> isArray value then iterateCollections opts
             else iteratePrimitives opts);
          (value1, s1) =
            (if invokeIteratee \<and> \<not> postOrder opts then iteratee value keyPath stack s
             else (value, s));
          childrenIterator =
            (\<lambda>val key. mapDeep_rec n opts iteratee val (keyPath @ [key]) (stack @ [value1]));
          mapped =
            (case value1 of
               JObj kvs \<Rightarrow>
                 (case mapValues childrenIterator kvs s1 of
                    None \<Rightarrow> None
                  | Some (kvs', s') \<Rightarrow> Some (JObj kvs', s'))
             | JArr xs \<Rightarrow>
                 (case lodash_map childrenIterator xs s1 of
                    None \<Rightarrow> None
                  | Some (xs', s') \<Rightarrow> Some (JArr xs', s'))
             | _ \<Rightarrow> Some (value1, s1))
      in case mapped of
           None \<Rightarrow> None
         | Some (value2, s2) \<Rightarrow>
             Some (if invokeIteratee \<and> postOrder opts then iteratee value2 keyPath stack s2
                   else (value2, s2)))"

text \<open>\<open>mapDeep(value, iteratee, options)\<close>: the call \<open>_mapDeep(value, [], [])\<close>.\<close>

definition mapDeep ::
  "nat \<Rightarrow> jsval \<Rightarrow> 's iteratee \<Rightarrow> options \<Rightarrow> 's \<Rightarrow> (jsval \<times> 's) option" where
  "mapDeep depth value iteratee opts s = mapDeep_rec depth opts iteratee value [] [] s"

text \<open>The number of nodes of a value and the number of levels below its root.\<close>

fun nodes :: "jsval \<Rightarrow> nat" where
  "nodes (JArr xs) = Suc (sum_list (map nodes xs))"
| "nodes (JObj kvs) = Suc (sum_list (map (\<lambda>kv. nodes (snd kv)) kvs))"
| "nodes v = 1"

fun height :: "jsval \<Rightarrow> nat" where
  "height (JArr xs) = Suc (foldr max (map height xs) 0)"
| "height (JObj kvs) = Suc (foldr max (map (\<lambda>kv. height (snd kv)) kvs) 0)"
| "height v = 0"

text \<open>
  An iteratee without effects, observed: the outside state is the log of its calls,
  each with the key path and the value it was given.
\<close>

definition logging ::
  "(jsval \<Rightarrow> key list \<Rightarrow> jsval list \<Rightarrow> jsval) \<Rightarrow> (key list \<times> jsval) list iteratee" where
  "logging f value keyPath stack log = (f value keyPath stack, log @ [(keyPath, value)])"

text \<open>
  The iteratee of the specification's example: a number is multiplied by ten and an
  array is replaced by \<open>[99]\<close>.
\<close>

definition replace_arrays :: "jsval \<Rightarrow> key list \<Rightarrow> jsval list \<Rightarrow> jsval" where
  "replace_arrays value keyPath stack =
     (case value of JNum n \<Rightarrow> JNum (n * 10) | JArr xs \<Rightarrow> JArr [JNum 99] | _ \<Rightarrow> value)"

definition sample_tree :: jsval where
  "sample_tree = JObj [(Name ''x'', JNum 1), (Name ''y'', JArr [JNum 2, JNum 3])]"

section \<open>Task queue\<close>

text \<open>
  The options of the constructor: \<open>limit\<close> and \<open>interval\<close> (milliseconds), \<open>None\<close> for the
  default \<open>null\<close>. An option counts as given when it is truthy, that is a number other
  than zero.
\<close>

record queue_options =
  limit :: "int option"
  interval :: "int option"

definition is_set :: "int option \<Rightarrow> bool" where
  "is_set x = (case x of None \<Rightarrow> False | Some n \<Rightarrow> n \<noteq> 0)"

definition number_of :: "int option \<Rightarrow> int" where
  "number_of x = (case x of None \<Rightarrow> 0 | Some n \<Rightarrow> n)"

text \<open>
  The state of a queue. A task is identified by the number of its submission. Times are
  clock readings in whole milliseconds; \<open>timeout\<close> holds the time the pending timer is
  due. Three fields are not in the code and only record what happened: \<open>running\<close> are
  the tasks that were started and have not settled, \<open>started\<close> are all tasks started so
  far in the order of their start, \<open>submitted\<close> counts the calls of \<open>addTask\<close>. Jobs
  return promises and do not call the queue while they are being started, and the
  handlers of one event run at one clock reading.
\<close>

record tq =
  runCount :: int
  lastRunTime :: "int option"
  timeout :: "int option"
  taskQueue :: "nat list"
  running :: "nat list"
  started :: "nat list"
  submitted :: nat

definition new_TaskQueue :: tq where
  "new_TaskQueue =
     \<lparr>runCount = 0, lastRunTime = None, timeout = None, taskQueue = [],
      running = [], started = [], submitted = 0\<rparr>"

text \<open>
  The method \<open>_runTask\<close> of the class: take the head of the queue, clear the timer, count
  the task as running, note the time, run the task, and look at the queue again through
  \<open>executeNext\<close>. On an empty queue \<open>task.run()\<close> throws a \<open>TypeError\<close>, which is \<open>None\<close>.
\<close>

definition protoRunTask :: "(tq \<Rightarrow> tq option) \<Rightarrow> int \<Rightarrow> tq \<Rightarrow> tq option" where
  "protoRunTask executeNext now q =
     (case taskQueue q of
        [] \<Rightarrow> None
      | task # rest \<Rightarrow>
          executeNext
            (q\<lparr>taskQueue := rest, timeout := None, runCount := runCount q + 1,
               lastRunTime := Some now, running := running q @ [task],
               started := started q @ [task]\<rparr>))"

text \<open>\<open>_runTaskLimit(runTask)\<close>.\<close>

definition runTaskLimit :: "queue_options \<Rightarrow> (tq \<Rightarrow> tq option) \<Rightarrow> tq \<Rightarrow> tq option" where
  "runTaskLimit opts runTask q =
     (if runCount q < number_of (limit opts) then runTask q else Some q)"

text \<open>\<open>_runTaskInterval(runTask)\<close>.\<close>

definition runTaskInterval ::
  "queue_options \<Rightarrow> (tq \<Rightarrow> tq option) \<Rightarrow> int \<Rightarrow> tq \<Rightarrow> tq option" where
  "runTaskInterval opts runTask now q =
     (case lastRunTime q of
        None \<Rightarrow> runTask q
      | Some lastRun \<Rightarrow>
          (case timeout q of
             Some due \<Rightarrow> Some q
           | None \<Rightarrow>
               (let diffMs = now - lastRun
                in if diffMs \<ge> number_of (interval opts) then runTask q
                   else Some (q\<lparr>timeout := Some (now + (number_of (interval opts) - diffMs))\<rparr>))))"

text \<open>
  The constructor replaces \<open>this._runTask\<close>: first, when \<open>interval\<close> is given, by the
  interval gate around the method of the class; then, when \<open>limit\<close> is given, by the limit
  gate around whatever \<open>this._runTask\<close> is by then.
\<close>

definition constructor_runTask ::
  "queue_options \<Rightarrow> (tq \<Rightarrow> tq option) \<Rightarrow> int \<Rightarrow> tq \<Rightarrow> tq option" where
  "constructor_runTask opts proto now =
     (let runTask = proto;
          runTask = (if is_set (interval opts) then runTaskInterval opts runTask now
                     else runTask);
          runTask = (if is_set (limit opts) then runTaskLimit opts runTask else runTask)
      in runTask)"

text \<open>
  \<open>_executeNextTask\<close>, which calls \<open>this._runTask\<close>, whose innermost function calls
  \<open>_executeNextTask\<close> again after it has taken a task from the queue. The first argument
  bounds the depth of this recursion.
\<close>

primrec executeNextTask_n :: "nat \<Rightarrow> queue_options \<Rightarrow> int \<Rightarrow> tq \<Rightarrow> tq option" where
  "executeNextTask_n 0 opts now q = None"
| "executeNextTask_n (Suc n) opts now q =
     (if taskQueue q = [] then Some q
      else constructor_runTask opts (protoRunTask (executeNextTask_n n opts now) now) now q)"

definition executeNextTask :: "queue_options \<Rightarrow> int \<Rightarrow> tq \<Rightarrow> tq option" where
  "executeNextTask opts now q = executeNextTask_n (Suc (length (taskQueue q))) opts now q"

text \<open>\<open>addTask(job, tag)\<close>.\<close>

definition addTask :: "queue_options \<Rightarrow> int \<Rightarrow> tq \<Rightarrow> tq option" where
  "addTask opts now q =
     executeNextTask opts now
       (q\<lparr>taskQueue := taskQueue q @ [submitted q], submitted := submitted q + 1\<rparr>)"

text \<open>\<open>clearQueue()\<close>.\<close>

definition clearQueue :: "tq \<Rightarrow> tq" where
  "clearQueue q = q\<lparr>taskQueue := [], timeout := None\<rparr>"

text \<open>
  The callback \<open>_runTask\<close> attaches to a task's promise, run when the task has settled;
  it is only run for a running task.
\<close>

definition task_settled :: "queue_options \<Rightarrow> int \<Rightarrow> nat \<Rightarrow> tq \<Rightarrow> tq option" where
  "task_settled opts now task q =
     (if task \<in> set (running q)
      then executeNextTask opts now
             (q\<lparr>runCount := runCount q - 1, running := remove1 task (running q)\<rparr>)
      else None)"

text \<open>
  The pending timer fires: it calls the function it was given, the method \<open>_runTask\<close> of
  the class. It fires only when there is one, and not before it is due.
\<close>

definition timer_fired :: "queue_options \<Rightarrow> int \<Rightarrow> tq \<Rightarrow> tq option" where
  "timer_fired opts now q =
     (case timeout q of
        None \<Rightarrow> None
      | Some due \<Rightarrow>
          if now < due then None else protoRunTask (executeNextTask opts now) now q)"

text \<open>What can happen to a queue, and a sequence of such events with their times.\<close>

datatype event = AddTask | Settled nat | TimerFired | ClearQueue

fun step :: "queue_options \<Rightarrow> int \<times> event \<Rightarrow> tq \<Rightarrow> tq option" where
  "step opts (now, AddTask) q = addTask opts now q"
| "step opts (now, Settled task) q = task_settled opts now task q"
| "step opts (now, TimerFired) q = timer_fired opts now q"
| "step opts (now, ClearQueue) q = Some (clearQueue q)"

fun run_events :: "queue_options \<Rightarrow> (int \<times> event) list \<Rightarrow> tq \<Rightarrow> tq option" where
  "run_events opts [] q = Some q"
| "run_events opts (e # es) q =
     (case step opts e q of None \<Rightarrow> None | Some q' \<Rightarrow> run_events opts es q')"

text \<open>
  The order of the gates as the specification words it, for comparison: the interval
  gate around the limit gate.
\<close>

definition interval_first_runTask ::
  "queue_options \<Rightarrow> (tq \<Rightarrow> tq option) \<Rightarrow> int \<Rightarrow> tq \<Rightarrow> tq option" where
  "interval_first_runTask opts proto now = runTaskInterval opts (runTaskLimit opts proto) now"



definition limit_one_interval_hundred :: queue_options where
  "limit_one_interval_hundred = \<lparr>limit = Some 1, interval = Some 100\<rparr>"



definition busy_queue :: tq where
  "busy_queue =
     \<lparr>runCount = 1, lastRunTime = Some 0, timeout = None, taskQueue = [1],
      running = [0], started = [0], submitted = 2\<rparr>"

text \<open>
  What holds of a queue with a limit between two events: \<open>runCount\<close> is the number of
  running tasks and within the limit; the tasks started so far, followed by the waiting
  tasks, are in the order of their submission; and a pending timer was set for the end
  of the interval after the last start, while a slot is free and a task is waiting.
\<close>

definition queue_inv :: "queue_options \<Rightarrow> tq \<Rightarrow> bool" where
  "queue_inv opts q \<longleftrightarrow>
     runCount q = int (length (running q)) \<and>
     runCount q \<le> number_of (limit opts) \<and>
     sorted_wrt (<) (started q @ taskQueue q) \<and>
     (\<forall>t \<in> set (started q @ taskQueue q). t < submitted q) \<and>
     (\<forall>due. timeout q = Some due \<longrightarrow>
        is_set (interval opts) \<and> runCount q < number_of (limit opts) \<and> taskQueue q \<noteq> [] \<and>
        lastRunTime q = Some (due - number_of (interval opts)))"

section \<open>Properties of the sequential helpers\<close>

lemma resolved_prefix_Nil: "resolved_prefix 0 []"
  by (simp add: resolved_prefix_def)

lemma resolved_prefix_length: "resolved_prefix index log \<Longrightarrow> length log = index"
  by (metis resolved_prefix_def length_map length_upt diff_zero)

lemma resolved_prefix_snoc:
  "resolved_prefix index log \<Longrightarrow> resolved_prefix (Suc index) (log @ [(index, Resolves v)])"
  by (simp add: resolved_prefix_def is_resolved_def)

lemma sequential_run_done:
  assumes "resolved_prefix index log" and "index \<le> n"
  shows "sequential_run n \<lparr>outcome = p, calls = log, final = s\<rparr>"
proof -
  have len: "length log = index" using assms(1) by (rule resolved_prefix_length)
  have "\<And>c. c \<in> set (butlast log) \<Longrightarrow> is_resolved (snd c)"
    using assms(1) by (auto simp: resolved_prefix_def dest: in_set_butlastD)
  moreover have "\<And>k e. (k, Rejects e) \<in> set log \<Longrightarrow> False"
    using assms(1) by (force simp: resolved_prefix_def is_resolved_def)
  ultimately show ?thesis
    using assms len by (auto simp: sequential_run_def resolved_prefix_def)
qed

lemma sequential_run_stop:
  assumes "resolved_prefix index log" and "index < n"
    and "\<And>e. x = Rejects e \<Longrightarrow> p = Rejected e"
  shows "sequential_run n \<lparr>outcome = p, calls = log @ [(index, x)], final = s\<rparr>"
proof -
  have len: "length log = index" using assms(1) by (rule resolved_prefix_length)
  have "\<And>k e. (k, Rejects e) \<in> set log \<Longrightarrow> False"
    using assms(1) by (force simp: resolved_prefix_def is_resolved_def)
  then show ?thesis
    using assms len by (auto simp: sequential_run_def resolved_prefix_def)
qed

lemma forEachPromise_next_sequential:
  "resolved_prefix index log \<Longrightarrow> index \<le> length array \<Longrightarrow>
   sequential_run (length array) (forEachPromise_next callback array index log s)"
proof (induction callback array index log s rule: forEachPromise_next.induct)
  case (1 callback array index log s)
  show ?case
  proof (cases "index < length array")
    case False
    then show ?thesis using "1.prems" by (simp add: sequential_run_done)
  next
    case True
    obtain x s' where cb: "callback (array ! index) index array s = (x, s')"
      by (cases "callback (array ! index) index array s")
    show ?thesis
    proof (cases x)
      case (Resolves result)
      show ?thesis
      proof (cases "result = JBool False")
        case True
        then show ?thesis
          using \<open>index < length array\<close> cb Resolves "1.prems"
          by (auto intro!: sequential_run_stop)
      next
        case False
        have "sequential_run (length array)
                (forEachPromise_next callback array (index + 1)
                   (log @ [(index, Resolves result)]) s')"
          using "1.IH"[OF True cb[symmetric] Resolves False] "1.prems" True
          by (simp add: resolved_prefix_snoc)
        then show ?thesis using True cb Resolves False by simp
      qed
    qed (use True cb "1.prems" in \<open>auto intro!: sequential_run_stop\<close>)
  qed
qed


lemma forEachPromise_js_next_sequential:
  "resolved_prefix index log \<Longrightarrow> index \<le> length array \<Longrightarrow>
   sequential_run (length array) (forEachPromise_js_next callback array index log s)"
proof (induction callback array index log s rule: forEachPromise_js_next.induct)
  case (1 callback array index log s)
  show ?case
  proof (cases "index < length array")
    case False
    then show ?thesis using "1.prems" by (simp add: sequential_run_done)
  next
    case True
    obtain x s' where cb: "callback (array ! index) index array s = (x, s')"
      by (cases "callback (array ! index) index array s")
    show ?thesis
    proof (cases x)
      case (Resolves result)
      have "sequential_run (length array)
              (forEachPromise_js_next callback array (index + 1)
                 (log @ [(index, Resolves result)]) s')"
        using "1.IH"[OF True cb[symmetric] Resolves] "1.prems" True
        by (simp add: resolved_prefix_snoc)
      then show ?thesis using True cb Resolves by simp
    qed (use True cb "1.prems" in \<open>auto intro!: sequential_run_stop\<close>)
  qed
qed

lemma mapPromise_next_sequential:
  "resolved_prefix index log \<Longrightarrow> index \<le> length array \<Longrightarrow>
   sequential_run (length array) (mapPromise_next callback array index results log s)"
proof (induction callback array index results log s rule: mapPromise_next.induct)
  case (1 callback array index results log s)
  show ?case
  proof (cases "index < length array")
    case False
    then show ?thesis using "1.prems" by (simp add: sequential_run_done)
  next
    case True
    obtain x s' where cb: "callback (array ! index) index array s = (x, s')"
      by (cases "callback (array ! index) index array s")
    show ?thesis
    proof (cases x)
      case (Resolves result)
      have "sequential_run (length array)
              (mapPromise_next callback array (index + 1) (array_assign results index result)
                 (log @ [(index, Resolves result)]) s')"
        using "1.IH"[OF True cb[symmetric] Resolves] "1.prems" True
        by (simp add: resolved_prefix_snoc)
      then show ?thesis using True cb Resolves by simp
    qed (use True cb "1.prems" in \<open>auto intro!: sequential_run_stop\<close>)
  qed
qed

lemma reducePromise_next_sequential:
  "resolved_prefix index log \<Longrightarrow> index \<le> length array \<Longrightarrow>
   sequential_run (length array) (reducePromise_next callback array index accumulator log s)"
proof (induction callback array index accumulator log s rule: reducePromise_next.induct)
  case (1 callback array index accumulator log s)
  show ?case
  proof (cases "index < length array")
    case False
    then show ?thesis using "1.prems" by (simp add: sequential_run_done)
  next
    case True
    obtain x s' where cb: "callback accumulator (array ! index) index array s = (x, s')"
      by (cases "callback accumulator (array ! index) index array s")
    show ?thesis
    proof (cases x)
      case (Resolves result)
      have "sequential_run (length array)
              (reducePromise_next callback array (index + 1) result
                 (log @ [(index, Resolves result)]) s')"
        using "1.IH"[OF True cb[symmetric] Resolves] "1.prems" True
        by (simp add: resolved_prefix_snoc)
      then show ?thesis using True cb Resolves by simp
    qed (use True cb "1.prems" in \<open>auto intro!: sequential_run_stop\<close>)
  qed
qed

lemma findPromise_next_sequential:
  "resolved_prefix index log \<Longrightarrow> index \<le> length array \<Longrightarrow>
   sequential_run (length array) (findPromise_next callback array index log s)"
proof (induction callback array index log s rule: findPromise_next.induct)
  case (1 callback array index log s)
  show ?case
  proof (cases "index < length array")
    case False
    then show ?thesis using "1.prems" by (simp add: sequential_run_done)
  next
    case True
    obtain x s' where cb: "callback (array ! index) index array s = (x, s')"
      by (cases "callback (array ! index) index array s")
    show ?thesis
    proof (cases x)
      case (Resolves result)
      show ?thesis
      proof (cases "truthy result")
        case True
        then show ?thesis
          using \<open>index < length array\<close> cb Resolves "1.prems"
          by (auto intro!: sequential_run_stop)
      next
        case False
        have "sequential_run (length array)
                (findPromise_next callback array (index + 1)
                   (log @ [(index, Resolves result)]) s')"
          using "1.IH"[OF True cb[symmetric] Resolves False] "1.prems" True
          by (simp add: resolved_prefix_snoc)
        then show ?thesis using True cb Resolves False by simp
      qed
    qed (use True cb "1.prems" in \<open>auto intro!: sequential_run_stop\<close>)
  qed
qed

lemma forEachPromise_next_all_resolve:
  "\<forall>i<length array. \<forall>s. \<exists>v s'. callback (array ! i) i array s = (Resolves v, s') \<and> v \<noteq> JBool False \<Longrightarrow>
    index \<le> length array \<Longrightarrow>
    outcome (forEachPromise_next callback array index log s) = Fulfilled JUndefined \<and>
    map fst (calls (forEachPromise_next callback array index log s)) =
      map fst log @ [index..<length array]"
proof (induction callback array index log s rule: forEachPromise_next.induct)
  case (1 callback array index log s)
  show ?case
  proof (cases "index < length array")
    case False
    then show ?thesis using "1.prems" by simp
  next
    case True
    from "1.prems"(1) True obtain v s' where
      cb: "callback (array ! index) index array s = (Resolves v, s')" and nf: "v \<noteq> JBool False"
      by blast
    have "outcome (forEachPromise_next callback array (index + 1) (log @ [(index, Resolves v)]) s')
            = Fulfilled JUndefined \<and>
          map fst (calls (forEachPromise_next callback array (index + 1)
            (log @ [(index, Resolves v)]) s')) =
          map fst (log @ [(index, Resolves v)]) @ [index + 1..<length array]"
      using "1.IH"[OF True cb[symmetric] refl nf "1.prems"(1)] True by simp
    then show ?thesis using True cb nf by (simp add: upt_conv_Cons)
  qed
qed

lemma forEachPromise_js_next_all_resolve:
  "\<forall>i<length array. \<forall>s. \<exists>v s'. callback (array ! i) i array s = (Resolves v, s') \<Longrightarrow>
    index \<le> length array \<Longrightarrow>
    outcome (forEachPromise_js_next callback array index log s) = Fulfilled JUndefined \<and>
    map fst (calls (forEachPromise_js_next callback array index log s)) =
      map fst log @ [index..<length array]"
proof (induction callback array index log s rule: forEachPromise_js_next.induct)
  case (1 callback array index log s)
  show ?case
  proof (cases "index < length array")
    case False
    then show ?thesis using "1.prems" by simp
  next
    case True
    from "1.prems"(1) True obtain v s' where
      cb: "callback (array ! index) index array s = (Resolves v, s')"
      by blast
    have "outcome (forEachPromise_js_next callback array (index + 1) (log @ [(index, Resolves v)]) s')
            = Fulfilled JUndefined \<and>
          map fst (calls (forEachPromise_js_next callback array (index + 1)
            (log @ [(index, Resolves v)]) s')) =
          map fst (log @ [(index, Resolves v)]) @ [index + 1..<length array]"
      using "1.IH"[OF True cb[symmetric] refl "1.prems"(1)] True by simp
    then show ?thesis using True cb by (simp add: upt_conv_Cons)
  qed
qed

text \<open>
  Claim C8. On an empty array each helper resolves at once and never invokes the
  callback: the invocation log is empty and the outside state is untouched.
  \<open>forEachPromise\<close> resolves with \<open>undefined\<close>, \<open>mapPromise\<close> with the empty array,
  \<open>reducePromise\<close> with the initial value and \<open>findPromise\<close> with \<open>undefined\<close>, its
  not-found result. The earlier \<open>forEachPromise\<close> behaves the same.
\<close>

theorem empty_sequence_identity:
  "forEachPromise [] callback s = \<lparr>outcome = Fulfilled JUndefined, calls = [], final = s\<rparr> \<and>
   mapPromise [] callback s = \<lparr>outcome = Fulfilled (JArr []), calls = [], final = s\<rparr> \<and>
   reducePromise [] reducer initialValue s =
     \<lparr>outcome = Fulfilled initialValue, calls = [], final = s\<rparr> \<and>
   findPromise [] callback s = \<lparr>outcome = Fulfilled JUndefined, calls = [], final = s\<rparr> \<and>
   forEachPromise_js [] callback s =
     \<lparr>outcome = Fulfilled JUndefined, calls = [], final = s\<rparr>"
  by (simp add: forEachPromise_def mapPromise_def reducePromise_def findPromise_def
      forEachPromise_js_def)

text \<open>
  Claim C3. Every helper runs sequentially, for every array, callback and outside state:
  the invocations are at the indices \<open>0, 1, 2, \<dots>\<close> in this order, each invocation but the
  last returned a promise that was fulfilled before the next one was made, and when the
  promise of the invocation at index \<open>k\<close> is rejected with \<open>e\<close> the helper's promise is
  rejected with \<open>e\<close> and the log ends at \<open>k\<close>, so no later index is invoked.
\<close>

theorem sequential_helpers_in_order_and_short_circuit:
  "sequential_run (length array) (forEachPromise array callback s) \<and>
   sequential_run (length array) (forEachPromise_js array callback s) \<and>
   sequential_run (length array) (mapPromise array callback s) \<and>
   sequential_run (length array) (findPromise array callback s) \<and>
   sequential_run (length array) (reducePromise array reducer initialValue s)"
  unfolding forEachPromise_def forEachPromise_js_def mapPromise_def findPromise_def
    reducePromise_def
  by (intro conjI forEachPromise_next_sequential forEachPromise_js_next_sequential
      mapPromise_next_sequential findPromise_next_sequential reducePromise_next_sequential
      resolved_prefix_Nil) simp_all

text \<open>
  The callback rejects at index 1 of a three-element array: each helper is rejected with
  that error after two invocations, the third element is never passed to the callback.
\<close>

theorem sequential_helpers_witness:
  "(1, Rejects (JStr ''boom'')) \<in> set (calls (forEachPromise sample_array reject_second_callback 0)) \<and>
   outcome (forEachPromise sample_array reject_second_callback 0) = Rejected (JStr ''boom'') \<and>
   length (calls (forEachPromise sample_array reject_second_callback 0)) = 2 \<and>
   (1, Rejects (JStr ''boom'')) \<in> set (calls (mapPromise sample_array reject_second_callback 0)) \<and>
   outcome (mapPromise sample_array reject_second_callback 0) = Rejected (JStr ''boom'') \<and>
   length (calls (mapPromise sample_array reject_second_callback 0)) = 2 \<and>
   (1, Rejects (JStr ''boom'')) \<in> set (calls (findPromise sample_array reject_second_callback 0)) \<and>
   outcome (findPromise sample_array reject_second_callback 0) = Rejected (JStr ''boom'') \<and>
   length (calls (findPromise sample_array reject_second_callback 0)) = 2 \<and>
   (1, Rejects (JStr ''boom'')) \<in>
     set (calls (reducePromise sample_array reject_second_reducer JNull 0)) \<and>
   outcome (reducePromise sample_array reject_second_reducer JNull 0) = Rejected (JStr ''boom'') \<and>
   length (calls (reducePromise sample_array reject_second_reducer JNull 0)) = 2"
proof -
  have m1: "(1, Rejects (JStr ''boom'')) \<in>
      set (calls (forEachPromise sample_array reject_second_callback 0))"
    by (simp add: forEachPromise_def sample_array_def reject_second_callback_def)
  have m2: "(1, Rejects (JStr ''boom'')) \<in>
      set (calls (mapPromise sample_array reject_second_callback 0))"
    by (simp add: mapPromise_def sample_array_def reject_second_callback_def)
  have m3: "(1, Rejects (JStr ''boom'')) \<in>
      set (calls (findPromise sample_array reject_second_callback 0))"
    by (simp add: findPromise_def sample_array_def reject_second_callback_def)
  have m4: "(1, Rejects (JStr ''boom'')) \<in>
      set (calls (reducePromise sample_array reject_second_reducer JNull 0))"
    by (simp add: reducePromise_def sample_array_def reject_second_reducer_def)
  note all = sequential_helpers_in_order_and_short_circuit
    [of sample_array reject_second_callback 0 reject_second_reducer JNull]
  from all m1 have
    "outcome (forEachPromise sample_array reject_second_callback 0) = Rejected (JStr ''boom'') \<and>
     length (calls (forEachPromise sample_array reject_second_callback 0)) = 2"
    unfolding sequential_run_def by fastforce
  moreover from all m2 have
    "outcome (mapPromise sample_array reject_second_callback 0) = Rejected (JStr ''boom'') \<and>
     length (calls (mapPromise sample_array reject_second_callback 0)) = 2"
    unfolding sequential_run_def by fastforce
  moreover from all m3 have
    "outcome (findPromise sample_array reject_second_callback 0) = Rejected (JStr ''boom'') \<and>
     length (calls (findPromise sample_array reject_second_callback 0)) = 2"
    unfolding sequential_run_def by fastforce
  moreover from all m4 have
    "outcome (reducePromise sample_array reject_second_reducer JNull 0) =
       Rejected (JStr ''boom'') \<and>
     length (calls (reducePromise sample_array reject_second_reducer JNull 0)) = 2"
    unfolding sequential_run_def by fastforce
  ultimately show ?thesis using m1 m2 m3 m4 by blast
qed

text \<open>
  Claim C4, as the code has it. When every promise the callback returns is fulfilled with
  a value other than \<open>false\<close>, \<open>forEachPromise\<close> invokes the callback once per element, in
  index order, and is fulfilled with \<open>undefined\<close> whatever the values were. The earlier
  \<open>forEachPromise\<close> of \<open>index.js\<close> does so for all fulfilled values, \<open>false\<close> included.
\<close>

theorem forEachPromise_once_per_element:
  "((\<forall>i<length array. \<forall>s. \<exists>v s'.
       callback (array ! i) i array s = (Resolves v, s') \<and> v \<noteq> JBool False) \<longrightarrow>
     outcome (forEachPromise array callback s) = Fulfilled JUndefined \<and>
     map fst (calls (forEachPromise array callback s)) = [0..<length array]) \<and>
   ((\<forall>i<length array. \<forall>s. \<exists>v s'. callback (array ! i) i array s = (Resolves v, s')) \<longrightarrow>
     outcome (forEachPromise_js array callback s) = Fulfilled JUndefined \<and>
     map fst (calls (forEachPromise_js array callback s)) = [0..<length array])"
  using forEachPromise_next_all_resolve[of array callback 0 "[]" s]
    forEachPromise_js_next_all_resolve[of array callback 0 "[]" s]
  by (simp add: forEachPromise_def forEachPromise_js_def)

theorem forEachPromise_once_per_element_witness:
  "outcome (forEachPromise sample_array counting_callback 0) = Fulfilled JUndefined \<and>
   map fst (calls (forEachPromise sample_array counting_callback 0)) = [0, 1, 2] \<and>
   outcome (forEachPromise_js sample_array false_callback 0) = Fulfilled JUndefined \<and>
   map fst (calls (forEachPromise_js sample_array false_callback 0)) = [0, 1, 2]"
proof -
  have h1: "\<forall>i<length sample_array. \<forall>s. \<exists>v s'.
      counting_callback (sample_array ! i) i sample_array s = (Resolves v, s') \<and>
      v \<noteq> JBool False"
    by (simp add: counting_callback_def)
  have h2: "\<forall>i<length sample_array. \<forall>s. \<exists>v s'.
      false_callback (sample_array ! i) i sample_array s = (Resolves v, s')"
    by (simp add: false_callback_def)
  have len: "[0..<length sample_array] = [0, 1, 2]"
    by (simp add: sample_array_def upt_rec)
  from forEachPromise_once_per_element[of sample_array counting_callback 0] h1 len
  have "outcome (forEachPromise sample_array counting_callback 0) = Fulfilled JUndefined \<and>
        map fst (calls (forEachPromise sample_array counting_callback 0)) = [0, 1, 2]"
    by simp
  moreover from forEachPromise_once_per_element[of sample_array false_callback 0] h2 len
  have "outcome (forEachPromise_js sample_array false_callback 0) = Fulfilled JUndefined \<and>
        map fst (calls (forEachPromise_js sample_array false_callback 0)) = [0, 1, 2]"
    by simp
  ultimately show ?thesis by simp
qed

text \<open>
  Claim C4 as stated fails on \<open>forEachPromise\<close>: every promise of this callback is
  fulfilled, with \<open>false\<close>, and of the three elements only the first is passed to it.
\<close>

theorem forEachPromise_stops_on_false:
  "length sample_array = 3 \<and>
   calls (forEachPromise sample_array false_callback 0) = [(0, Resolves (JBool False))] \<and>
   outcome (forEachPromise sample_array false_callback 0) = Fulfilled JUndefined \<and>
   final (forEachPromise sample_array false_callback 0) = 1"
  by (simp add: forEachPromise_def sample_array_def false_callback_def)


section \<open>Properties of the front matter parser\<close>

lemma fm_step_no_match:
  "\<not> style_matches string (startDelimiter t) (endDelimiter t) \<Longrightarrow>
   fm_step string t doc = Inr doc"
  by (auto simp: fm_step_def style_matches_def Let_def split: option.splits)

lemma replace_first_absent: "indexOf s p = None \<Longrightarrow> replace_first s p r = s"
  by (simp add: replace_first_def)

lemma sample_document_normal: "replace_first sample_document CRLF LF = sample_document"
  by (simp add: replace_first_def sample_document_def CRLF_def LF_def startsWith_def)

lemma sample_document_forEach:
  "fm_forEach sample_document (frontMatterTypes c) doc =
   (case yaml_load c ''title: Hi'' of
      Inl e \<Rightarrow> Inl e
    | Inr value \<Rightarrow> Inr \<lparr>frontmatter = value, markdown = LF @ ''Body text'' @ LF\<rparr>)"
  by (simp add: frontMatterTypes_def fm_step_def sample_document_def LF_def startsWith_def
      substring_def substring_from_def split: sum.split)

text \<open>
  Claim C6, as the code has it. On the text \<open>---\ntitle: Hi\n---\n\nBody text\n\<close> the
  YAML style is accepted, the decoder is given exactly \<open>title: Hi\<close>, and what it returns
  is the front matter. Only the line feed that ends the line of the closing delimiter is
  dropped, so the body keeps the empty line: it is \<open>\nBody text\n\<close>.
\<close>

theorem parse_sample_document:
  "yaml_load c ''title: Hi'' = Inr value \<longrightarrow>
   parseMarkdownWithFrontMatter c sample_document =
     Inr \<lparr>frontmatter = value, markdown = LF @ ''Body text'' @ LF\<rparr>"
  by (simp add: parseMarkdownWithFrontMatter_def sample_document_normal
      sample_document_forEach)

theorem parse_sample_document_witness:
  "yaml_load sample_codecs ''title: Hi'' = Inr (JObj [(Name ''title'', JStr ''Hi'')]) \<and>
   parseMarkdownWithFrontMatter sample_codecs sample_document =
     Inr \<lparr>frontmatter = JObj [(Name ''title'', JStr ''Hi'')],
          markdown = LF @ ''Body text'' @ LF\<rparr>"
proof -
  have h: "yaml_load sample_codecs ''title: Hi'' = Inr (JObj [(Name ''title'', JStr ''Hi'')])"
    by (simp add: sample_codecs_def)
  with parse_sample_document[of sample_codecs "JObj [(Name ''title'', JStr ''Hi'')]"]
  show ?thesis by simp
qed

text \<open>
  Claim C6 as stated fails: with a decoder that reads \<open>title: Hi\<close> as \<open>{title: "Hi"}\<close> the
  result is not the pair of that front matter and the body \<open>Body text\n\<close>.
\<close>

theorem parse_sample_document_body_keeps_blank_line:
  "parseMarkdownWithFrontMatter sample_codecs sample_document \<noteq>
     Inr \<lparr>frontmatter = JObj [(Name ''title'', JStr ''Hi'')], markdown = ''Body text'' @ LF\<rparr>"
proof -
  have "parseMarkdownWithFrontMatter sample_codecs sample_document =
      Inr \<lparr>frontmatter = JObj [(Name ''title'', JStr ''Hi'')],
           markdown = LF @ ''Body text'' @ LF\<rparr>"
    by (simp add: parseMarkdownWithFrontMatter_def sample_document_normal
        sample_document_forEach sample_codecs_def)
  then show ?thesis by (simp add: LF_def)
qed

text \<open>
  Claim C7, as the code has it. The text is first changed by \<open>replace('\r\n', '\n')\<close>,
  which replaces the first occurrence wherever it stands. When none of the three styles
  matches the changed text, the front matter is \<open>null\<close> and the body is the changed text;
  for an input without \<open>\r\n\<close> that is the input itself, verbatim.
\<close>

theorem parse_without_front_matter:
  "(no_style_matches (replace_first input CRLF LF) \<longrightarrow>
      parseMarkdownWithFrontMatter c input =
        Inr \<lparr>frontmatter = JNull, markdown = replace_first input CRLF LF\<rparr>) \<and>
   (indexOf input CRLF = None \<and> no_style_matches input \<longrightarrow>
      parseMarkdownWithFrontMatter c input = Inr \<lparr>frontmatter = JNull, markdown = input\<rparr>)"
  by (auto simp: parseMarkdownWithFrontMatter_def frontMatterTypes_def no_style_matches_def
      fm_step_no_match replace_first_absent)

theorem parse_without_front_matter_witness:
  "indexOf plain_text CRLF = None \<and> no_style_matches plain_text \<and>
   parseMarkdownWithFrontMatter sample_codecs plain_text =
     Inr \<lparr>frontmatter = JNull, markdown = plain_text\<rparr> \<and>
   no_style_matches (replace_first windows_text CRLF LF) \<and>
   parseMarkdownWithFrontMatter sample_codecs windows_text =
     Inr \<lparr>frontmatter = JNull, markdown = replace_first windows_text CRLF LF\<rparr>"
proof -
  have a: "indexOf plain_text CRLF = None"
    by (simp add: plain_text_def CRLF_def startsWith_def)
  have b: "no_style_matches plain_text"
    by (simp add: no_style_matches_def style_matches_def plain_text_def LF_def startsWith_def)
  have c: "no_style_matches (replace_first windows_text CRLF LF)"
    by (simp add: no_style_matches_def style_matches_def windows_text_def replace_first_def
        CRLF_def LF_def startsWith_def)
  from parse_without_front_matter[of plain_text sample_codecs] a b
  have "parseMarkdownWithFrontMatter sample_codecs plain_text =
          Inr \<lparr>frontmatter = JNull, markdown = plain_text\<rparr>"
    by blast
  moreover from parse_without_front_matter[of windows_text sample_codecs] c
  have "parseMarkdownWithFrontMatter sample_codecs windows_text =
          Inr \<lparr>frontmatter = JNull, markdown = replace_first windows_text CRLF LF\<rparr>"
    by blast
  ultimately show ?thesis using a b c by blast
qed

text \<open>
  Claim C7 as stated fails on \<open>a\r\nb\<close>: no style matches it, before or after the
  replacement, and the body is \<open>a\nb\<close>, which is not the input; the replaced \<open>\r\n\<close>
  stands at position 1, not at the start of the string.
\<close>

theorem parse_windows_text_not_verbatim:
  "no_style_matches windows_text \<and>
   indexOf windows_text CRLF = Some 1 \<and>
   parseMarkdownWithFrontMatter sample_codecs windows_text =
     Inr \<lparr>frontmatter = JNull, markdown = ''a'' @ LF @ ''b''\<rparr> \<and>
   ''a'' @ LF @ ''b'' \<noteq> windows_text"
proof -
  have a: "no_style_matches windows_text"
    by (simp add: no_style_matches_def style_matches_def windows_text_def CRLF_def LF_def
        startsWith_def)
  have b: "indexOf windows_text CRLF = Some 1"
    by (simp add: windows_text_def CRLF_def startsWith_def)
  have c: "replace_first windows_text CRLF LF = ''a'' @ LF @ ''b''"
    by (simp add: replace_first_def b) (simp add: windows_text_def CRLF_def LF_def)
  have d: "no_style_matches (''a'' @ LF @ ''b'')"
    by (simp add: no_style_matches_def style_matches_def LF_def startsWith_def)
  have e: "parseMarkdownWithFrontMatter sample_codecs windows_text =
      Inr \<lparr>frontmatter = JNull, markdown = ''a'' @ LF @ ''b''\<rparr>"
    using d
    by (simp add: parseMarkdownWithFrontMatter_def c frontMatterTypes_def no_style_matches_def
        fm_step_no_match)
  have f: "''a'' @ LF @ ''b'' \<noteq> windows_text"
    by (simp add: windows_text_def CRLF_def LF_def)
  from a b e f show ?thesis by blast
qed


section \<open>Properties of the object utilities\<close>

lemma getFirst_all_undefined:
  "\<forall>p \<in> set paths. lodash_get object p = JUndefined \<Longrightarrow>
   getFirst object paths d = d"
proof -
  assume h: "\<forall>p \<in> set paths. lodash_get object p = JUndefined"
  have "reject isUndefined (lodash_at object paths) = []"
    using h by (auto simp: reject_def lodash_at_def isUndefined_def filter_empty_conv)
  then show ?thesis
    by (simp add: getFirst_def first_def isUndefined_def)
qed

lemma getFirst_first_defined:
  assumes "\<forall>q \<in> set ps. lodash_get object q = JUndefined"
    and "lodash_get object p \<noteq> JUndefined"
  shows "getFirst object (ps @ p # rest) d = lodash_get object p"
proof -
  have nn: "\<not> isNil object"
    using assms(2) by (auto simp: lodash_get_def)
  have "reject isUndefined (lodash_at object ps) = []"
    using assms(1) nn
    by (auto simp: reject_def lodash_at_def isUndefined_def filter_empty_conv)
  then have "reject isUndefined (lodash_at object (ps @ p # rest)) =
      lodash_get object p # reject isUndefined (lodash_at object rest)"
    using assms(2) nn by (simp add: reject_def lodash_at_def isUndefined_def)
  then show ?thesis
    using assms(2) by (simp add: getFirst_def first_def isUndefined_def)
qed

text \<open>
  Claim C10. \<open>getFirst\<close> returns the value at the first path of the list that does not
  resolve to \<open>undefined\<close>: the paths before it all resolve to \<open>undefined\<close>. When every
  path resolves to \<open>undefined\<close>, and so when the list is empty, it returns
  \<open>defaultValue\<close>, which is \<open>undefined\<close> in a call that leaves it out.
\<close>

theorem getFirst_first_defined_or_default:
  "((\<forall>q \<in> set ps. lodash_get object q = JUndefined) \<and> lodash_get object p \<noteq> JUndefined \<longrightarrow>
      getFirst object (ps @ p # rest) defaultValue = lodash_get object p) \<and>
   ((\<forall>q \<in> set paths. lodash_get object q = JUndefined) \<longrightarrow>
      getFirst object paths defaultValue = defaultValue) \<and>
   getFirst object [] defaultValue = defaultValue"
  using getFirst_first_defined[of ps object p rest defaultValue]
    getFirst_all_undefined[of paths object defaultValue]
    getFirst_all_undefined[of "[]" object defaultValue]
  by simp

theorem getFirst_witness:
  "lodash_get sample_source [Name ''zz''] = JUndefined \<and>
   lodash_get sample_source [Name ''n''] = JNull \<and>
   getFirst sample_source [[Name ''zz''], [Name ''n''], [Name ''a'', Name ''b'']] JUndefined
     = JNull \<and>
   getFirst sample_source [[Name ''zz''], [Name ''a'', Name ''zz'']] (JStr ''none'')
     = JStr ''none''"
proof -
  have a: "lodash_get sample_source [Name ''zz''] = JUndefined"
    by (simp add: lodash_get_def baseGet_def sample_source_def isNil_def)
  have b: "lodash_get sample_source [Name ''n''] = JNull"
    by (simp add: lodash_get_def baseGet_def sample_source_def isNil_def)
  have c: "lodash_get sample_source [Name ''a'', Name ''zz''] = JUndefined"
    by (simp add: lodash_get_def baseGet_def sample_source_def isNil_def)
  from getFirst_first_defined_or_default
    [of "[[Name ''zz'']]" sample_source "[Name ''n'']" "[[Name ''a'', Name ''b'']]" JUndefined]
    a b
  have "getFirst sample_source [[Name ''zz''], [Name ''n''], [Name ''a'', Name ''b'']] JUndefined
      = JNull"
    by simp
  moreover from getFirst_first_defined_or_default
    [of _ sample_source _ _ "JStr ''none''" "[[Name ''zz''], [Name ''a'', Name ''zz'']]"] a c
  have "getFirst sample_source [[Name ''zz''], [Name ''a'', Name ''zz'']] (JStr ''none'')
      = JStr ''none''"
    by simp
  ultimately show ?thesis using a b by simp
qed

lemma map_of_obj_replace:
  "map_of (obj_replace kvs k v) k = (if map_of kvs k \<noteq> None then Some v else None)"
  by (induction kvs) (auto simp: obj_replace_def)

lemma map_of_obj_insert: "map_of kvs k = None \<Longrightarrow> map_of (obj_insert kvs k v) k = Some v"
  by (induction kvs k v rule: obj_insert.induct) (auto split: if_splits)

lemma map_of_obj_assign: "map_of (obj_assign kvs k v) k = Some v"
  by (simp add: obj_assign_def map_of_obj_replace map_of_obj_insert)

lemma obj_replace_idem: "obj_replace (obj_replace kvs k v) k v = obj_replace kvs k v"
  by (induction kvs) (auto simp: obj_replace_def)

lemma obj_replace_absent: "map_of kvs k = None \<Longrightarrow> obj_replace kvs k v = kvs"
  by (induction kvs) (auto simp: obj_replace_def split: if_splits)

lemma obj_replace_Cons:
  "obj_replace (kv # kvs) k v =
     (if fst kv = k then (k, v) else kv) # obj_replace kvs k v"
  by (cases kv) (simp add: obj_replace_def)

lemma obj_replace_insert:
  "map_of kvs k = None \<Longrightarrow> obj_replace (obj_insert kvs k v) k v = obj_insert kvs k v"
  by (induction kvs k v rule: obj_insert.induct)
    (auto simp: obj_replace_Cons obj_replace_absent split: if_splits)

lemma obj_assign_idem: "obj_assign (obj_assign kvs k v) k v = obj_assign kvs k v"
proof -
  have "obj_assign (obj_assign kvs k v) k v = obj_replace (obj_assign kvs k v) k v"
    using map_of_obj_assign[of kvs k v] by (simp add: obj_assign_def[of "obj_assign kvs k v"])
  also have "\<dots> = obj_assign kvs k v"
    by (simp add: obj_assign_def obj_replace_idem obj_replace_insert)
  finally show ?thesis .
qed

lemma array_assign_nth:
  "i < length (array_assign xs i v) \<and> array_assign xs i v ! i = v"
  by (auto simp: array_assign_def nth_append)

lemma array_assign_idem: "array_assign (array_assign xs i v) i v = array_assign xs i v"
proof -
  have "array_assign (array_assign xs i v) i v = (array_assign xs i v)[i := v]"
    using array_assign_nth[of i xs v] by (simp add: array_assign_def[of "array_assign xs i v"])
  also have "\<dots> = array_assign xs i v"
    using array_assign_nth[of i xs v] by (metis list_update_id)
  finally show ?thesis .
qed

lemma assignValue_idem: "assignValue obj k v = Some obj' \<Longrightarrow> assignValue obj' k v = Some obj'"
  by (induction obj k v rule: assignValue.induct)
    (auto simp: obj_assign_idem array_assign_idem)

lemma assignValue_getProp: "assignValue obj k v = Some obj' \<Longrightarrow> getProp obj' k = v"
  by (induction obj k v rule: assignValue.induct)
    (auto simp: map_of_obj_assign array_assign_nth)

lemma assignValue_isObject: "assignValue obj k v = Some obj' \<Longrightarrow> isObject obj'"
  by (induction obj k v rule: assignValue.induct)
    (auto simp: isObject_def isArray_def isPlainObject_def)

lemma baseSet_loop_idem:
  "isObject nested \<Longrightarrow> baseSet_loop nested path v = Some nested' \<Longrightarrow>
   baseSet_loop nested' path v = Some nested' \<and> isObject nested'"
proof (induction nested path v arbitrary: nested' rule: baseSet_loop.induct)
  case (1 nested v)
  then show ?case by simp
next
  case (2 nested k v)
  then show ?case
    by (auto split: if_splits dest: assignValue_idem assignValue_isObject)
next
  case (3 nested k nxt path v)
  show ?case
  proof (cases "unsafe_key k")
    case True
    then show ?thesis using "3.prems" by simp
  next
    case False
    define newValue where
      "newValue = (if isObject (getProp nested k) then getProp nested k
                   else if isIndex nxt then JArr [] else JObj [])"
    have obj: "isObject newValue"
      by (simp add: newValue_def isObject_def isArray_def isPlainObject_def)
    from "3.prems"(2) False obtain child where
      ch: "baseSet_loop newValue (nxt # path) v = Some child" and
      as: "assignValue nested k child = Some nested'"
      by (auto simp: newValue_def Let_def split: option.splits)
    have ih: "baseSet_loop child (nxt # path) v = Some child \<and> isObject child"
      using "3.IH"[OF False refl newValue_def obj ch] .
    have gp: "getProp nested' k = child" using as by (rule assignValue_getProp)
    have "baseSet_loop nested' (k # nxt # path) v = assignValue nested' k child"
      using False ih gp by (simp add: Let_def)
    then show ?thesis
      using assignValue_idem[OF as] assignValue_isObject[OF as] by simp
  qed
qed

lemma lodash_set_idem:
  "lodash_set object path v = Some object' \<Longrightarrow> lodash_set object' path v = Some object'"
  by (auto simp: lodash_set_def split: if_splits dest: baseSet_loop_idem)

text \<open>
  Claim C9. When \<open>copyIfNotSet\<close> returns the target \<open>t'\<close>, a second call with the same
  arguments on \<open>t'\<close> returns \<open>t'\<close> again: twice is the same as once. When the target
  path is already present in the target, the call returns the target unchanged. The
  calls covered are those whose result is a value of the model.
\<close>

theorem copyIfNotSet_idempotent:
  "(copyIfNotSet sourceObject sourcePath targetObject targetPath transform = Some t' \<longrightarrow>
      copyIfNotSet sourceObject sourcePath t' targetPath transform = Some t') \<and>
   (lodash_has targetObject targetPath \<longrightarrow>
      copyIfNotSet sourceObject sourcePath targetObject targetPath transform =
        Some targetObject)"
proof -
  have "copyIfNotSet sourceObject sourcePath t' targetPath transform = Some t'"
    if h: "copyIfNotSet sourceObject sourcePath targetObject targetPath transform = Some t'"
  proof (cases "lodash_has t' targetPath")
    case True
    then show ?thesis by (simp add: copyIfNotSet_def)
  next
    case False
    show ?thesis
    proof (cases "lodash_has targetObject targetPath \<or> \<not> lodash_has sourceObject sourcePath")
      case True
      then have "t' = targetObject"
        using h by (auto simp: copyIfNotSet_def copy_def split: if_splits)
      then show ?thesis using True by (auto simp: copyIfNotSet_def copy_def)
    next
      case nt: False
      define val where
        "val = (case transform of Some f \<Rightarrow> f (lodash_get sourceObject sourcePath)
                  | None \<Rightarrow> lodash_get sourceObject sourcePath)"
      from h nt have "lodash_set targetObject targetPath val = Some t'"
        by (simp add: copyIfNotSet_def copy_def val_def Let_def)
      then have "lodash_set t' targetPath val = Some t'"
        by (rule lodash_set_idem)
      then show ?thesis
        using False nt by (simp add: copyIfNotSet_def copy_def val_def Let_def)
    qed
  qed
  then show ?thesis by (simp add: copyIfNotSet_def)
qed

theorem copyIfNotSet_witness:
  "copyIfNotSet sample_source [Name ''a'', Name ''b''] sample_target
      [Name ''y'', Index 1, Name ''z''] (Some times_ten) =
     Some (JObj [(Name ''x'', JNum 5),
                 (Name ''y'', JArr [JUndefined, JObj [(Name ''z'', JNum 10)]])]) \<and>
   copyIfNotSet sample_source [Name ''a'', Name ''b'']
      (JObj [(Name ''x'', JNum 5),
             (Name ''y'', JArr [JUndefined, JObj [(Name ''z'', JNum 10)]])])
      [Name ''y'', Index 1, Name ''z''] (Some times_ten) =
     Some (JObj [(Name ''x'', JNum 5),
                 (Name ''y'', JArr [JUndefined, JObj [(Name ''z'', JNum 10)]])]) \<and>
   lodash_has sample_target [Name ''x''] \<and>
   copyIfNotSet sample_source [Name ''a'', Name ''b''] sample_target [Name ''x'']
      (Some times_ten) = Some sample_target"
proof -
  have a: "copyIfNotSet sample_source [Name ''a'', Name ''b''] sample_target
      [Name ''y'', Index 1, Name ''z''] (Some times_ten) =
     Some (JObj [(Name ''x'', JNum 5),
                 (Name ''y'', JArr [JUndefined, JObj [(Name ''z'', JNum 10)]])])"
    by (simp add: copyIfNotSet_def copy_def lodash_has_def lodash_get_def lodash_set_def
        baseGet_def sample_source_def sample_target_def times_ten_def isNil_def isObject_def
        isArray_def isPlainObject_def isIndex_def unsafe_key_def obj_assign_def
        array_assign_def)
  have b: "lodash_has sample_target [Name ''x'']"
    by (simp add: lodash_has_def sample_target_def isNil_def)
  note th = copyIfNotSet_idempotent
  from th[of sample_source "[Name ''a'', Name ''b'']" sample_target
      "[Name ''y'', Index 1, Name ''z'']" "Some times_ten"] a
  have c: "copyIfNotSet sample_source [Name ''a'', Name ''b'']
      (JObj [(Name ''x'', JNum 5),
             (Name ''y'', JArr [JUndefined, JObj [(Name ''z'', JNum 10)]])])
      [Name ''y'', Index 1, Name ''z''] (Some times_ten) =
     Some (JObj [(Name ''x'', JNum 5),
                 (Name ''y'', JArr [JUndefined, JObj [(Name ''z'', JNum 10)]])])"
    by blast
  from th[of sample_source "[Name ''a'', Name ''b'']" sample_target "[Name ''x'']"
      "Some times_ten"] b
  have d: "copyIfNotSet sample_source [Name ''a'', Name ''b''] sample_target [Name ''x'']
      (Some times_ten) = Some sample_target"
    by blast
  from a b c d show ?thesis by blast
qed


section \<open>Properties of the deep tree mapper\<close>

lemma mapValues_counts:
  assumes "\<And>k c log. (k, c) \<in> set kvs \<Longrightarrow>
      \<exists>r log'. g c k log = Some (r, log') \<and> length log' = length log + nodes c"
  shows "\<exists>kvs' log'. mapValues g kvs log = Some (kvs', log') \<and>
      length log' = length log + sum_list (map (\<lambda>kv. nodes (snd kv)) kvs)"
  using assms
proof (induction kvs arbitrary: log)
  case Nil
  then show ?case by simp
next
  case (Cons kv kvs)
  obtain k c where kv: "kv = (k, c)" by (cases kv)
  from Cons.prems[of k c log] kv obtain r log1 where
    r: "g c k log = Some (r, log1)" and l1: "length log1 = length log + nodes c"
    by auto
  have "\<exists>kvs' log'. mapValues g kvs log1 = Some (kvs', log') \<and>
      length log' = length log1 + sum_list (map (\<lambda>kv. nodes (snd kv)) kvs)"
    by (rule Cons.IH) (use Cons.prems in auto)
  then obtain kvs' log2 where
    m: "mapValues g kvs log1 = Some (kvs', log2)" and
    l2: "length log2 = length log1 + sum_list (map (\<lambda>kv. nodes (snd kv)) kvs)"
    by blast
  show ?case using kv r m l1 l2 by simp
qed

lemma map_from_counts:
  assumes "\<And>i c log. c \<in> set xs \<Longrightarrow>
      \<exists>r log'. g c (Index i) log = Some (r, log') \<and> length log' = length log + nodes c"
  shows "\<exists>xs' log'. map_from g xs index log = Some (xs', log') \<and>
      length log' = length log + sum_list (map nodes xs)"
  using assms
proof (induction xs arbitrary: log index)
  case Nil
  then show ?case by simp
next
  case (Cons c xs)
  from Cons.prems[of c index log] obtain r log1 where
    r: "g c (Index index) log = Some (r, log1)" and l1: "length log1 = length log + nodes c"
    by auto
  have "\<exists>xs' log'. map_from g xs (index + 1) log1 = Some (xs', log') \<and>
      length log' = length log1 + sum_list (map nodes xs)"
    by (rule Cons.IH) (use Cons.prems in auto)
  then obtain xs' log2 where
    m: "map_from g xs (index + 1) log1 = Some (xs', log2)" and
    l2: "length log2 = length log1 + sum_list (map nodes xs)"
    by blast
  show ?case using r m l1 l2 by simp
qed

lemma height_member: "c \<in> set xs \<Longrightarrow> height c \<le> foldr max (map height xs) 0"
  by (induction xs) auto

lemma height_member_snd:
  "(k, c) \<in> set kvs \<Longrightarrow> height c \<le> foldr max (map (\<lambda>kv. height (snd kv)) kvs) 0"
  by (induction kvs) auto

lemma preOrder_step:
  "mapDeep_rec (Suc n) default_options iteratee value keyPath stack s =
     (case iteratee value keyPath stack s of
        (value1, s1) \<Rightarrow>
          (case value1 of
             JObj kvs \<Rightarrow>
               (case mapValues
                       (\<lambda>val key. mapDeep_rec n default_options iteratee val (keyPath @ [key])
                          (stack @ [value1])) kvs s1 of
                  None \<Rightarrow> None
                | Some (kvs', s') \<Rightarrow> Some (JObj kvs', s'))
           | JArr xs \<Rightarrow>
               (case lodash_map
                       (\<lambda>val key. mapDeep_rec n default_options iteratee val (keyPath @ [key])
                          (stack @ [value1])) xs s1 of
                  None \<Rightarrow> None
                | Some (xs', s') \<Rightarrow> Some (JArr xs', s'))
           | _ \<Rightarrow> Some (value1, s1)))"
  by (auto simp: default_options_def split: prod.splits jsval.splits option.splits)

lemma postOrder_step:
  "mapDeep_rec (Suc n) postOrder_options iteratee value keyPath stack s =
     (case (case value of
              JObj kvs \<Rightarrow>
                (case mapValues
                        (\<lambda>val key. mapDeep_rec n postOrder_options iteratee val
                           (keyPath @ [key]) (stack @ [value])) kvs s of
                   None \<Rightarrow> None
                 | Some (kvs', s') \<Rightarrow> Some (JObj kvs', s'))
            | JArr xs \<Rightarrow>
                (case lodash_map
                        (\<lambda>val key. mapDeep_rec n postOrder_options iteratee val
                           (keyPath @ [key]) (stack @ [value])) xs s of
                   None \<Rightarrow> None
                 | Some (xs', s') \<Rightarrow> Some (JArr xs', s'))
            | _ \<Rightarrow> Some (value, s)) of
        None \<Rightarrow> None
      | Some (value2, s2) \<Rightarrow> Some (iteratee value2 keyPath stack s2))"
  by (auto simp: postOrder_options_def split: prod.splits jsval.splits option.splits)

lemma postOrder_counts:
  "height value < depth \<Longrightarrow>
   \<exists>r log'. mapDeep_rec depth postOrder_options (logging f) value keyPath stack log =
       Some (r, log') \<and>
     length log' = length log + nodes value"
proof (induction depth arbitrary: "value" keyPath stack log)
  case 0
  then show ?case by simp
next
  case (Suc n)
  show ?case
  proof (cases "value")
    case (JArr xs)
    let ?g = "\<lambda>val key. mapDeep_rec n postOrder_options (logging f) val (keyPath @ [key])
      (stack @ [value])"
    have "\<exists>xs' log'. map_from ?g xs 0 log = Some (xs', log') \<and>
        length log' = length log + sum_list (map nodes xs)"
    proof (rule map_from_counts)
      fix i c lg
      assume "c \<in> set xs"
      then have "height c < n"
        using Suc.prems JArr height_member[of c xs] by simp
      then show "\<exists>r log'. ?g c (Index i) lg = Some (r, log') \<and>
          length log' = length lg + nodes c"
        by (rule Suc.IH)
    qed
    then obtain xs' log1 where
      m: "map_from ?g xs 0 log = Some (xs', log1)" and
      l: "length log1 = length log + sum_list (map nodes xs)"
      by blast
    have eq: "mapDeep_rec (Suc n) postOrder_options (logging f) value keyPath stack log =
        Some (logging f (JArr xs') keyPath stack log1)"
      unfolding postOrder_step using JArr m by (simp add: lodash_map_def)
    show ?thesis
      unfolding eq using JArr l by (simp add: logging_def)
  next
    case (JObj kvs)
    let ?g = "\<lambda>val key. mapDeep_rec n postOrder_options (logging f) val (keyPath @ [key])
      (stack @ [value])"
    have "\<exists>kvs' log'. mapValues ?g kvs log = Some (kvs', log') \<and>
        length log' = length log + sum_list (map (\<lambda>kv. nodes (snd kv)) kvs)"
    proof (rule mapValues_counts)
      fix k c lg
      assume "(k, c) \<in> set kvs"
      then have "height c < n"
        using Suc.prems JObj height_member_snd[of k c kvs] by simp
      then show "\<exists>r log'. ?g c k lg = Some (r, log') \<and>
          length log' = length lg + nodes c"
        by (rule Suc.IH)
    qed
    then obtain kvs' log1 where
      m: "mapValues ?g kvs log = Some (kvs', log1)" and
      l: "length log1 = length log + sum_list (map (\<lambda>kv. nodes (snd kv)) kvs)"
      by blast
    have eq: "mapDeep_rec (Suc n) postOrder_options (logging f) value keyPath stack log =
        Some (logging f (JObj kvs') keyPath stack log1)"
      unfolding postOrder_step using JObj m by simp
    show ?thesis
      unfolding eq using JObj l by (simp add: logging_def)
  qed (simp_all add: postOrder_options_def isArray_def isPlainObject_def logging_def)
qed


text \<open>
  Claim C5. With the default options the iteratee is applied to a node first, and the
  children that are visited next are those of the value it returned: when it returns an
  array or an object, the elements or properties of that replacement are mapped, with
  the replacement on the stack, and anything else is the result as it is. With
  \<open>postOrder\<close> the children of the node itself are mapped first, the iteratee is given the
  node with its mapped children, and what it returns is the result, without a further
  traversal. So in post-order every call on a tree returns when the depth allowed
  exceeds the height of the tree, and an observed iteratee is called once per node of
  the input, whatever it returns.
\<close>

theorem mapDeep_preOrder_and_postOrder:
  "(iteratee node keyPath stack s = (JArr xs, s1) \<longrightarrow>
      mapDeep_rec (Suc n) default_options iteratee node keyPath stack s =
        (case lodash_map
                (\<lambda>val key. mapDeep_rec n default_options iteratee val (keyPath @ [key])
                   (stack @ [JArr xs])) xs s1 of
           None \<Rightarrow> None
         | Some (xs', s') \<Rightarrow> Some (JArr xs', s'))) \<and>
   (iteratee node keyPath stack s = (JObj kvs, s1) \<longrightarrow>
      mapDeep_rec (Suc n) default_options iteratee node keyPath stack s =
        (case mapValues
                (\<lambda>val key. mapDeep_rec n default_options iteratee val (keyPath @ [key])
                   (stack @ [JObj kvs])) kvs s1 of
           None \<Rightarrow> None
         | Some (kvs', s') \<Rightarrow> Some (JObj kvs', s'))) \<and>
   (iteratee node keyPath stack s = (replacement, s1) \<and> \<not> isObject replacement \<longrightarrow>
      mapDeep_rec (Suc n) default_options iteratee node keyPath stack s = Some (replacement, s1)) \<and>
   mapDeep_rec (Suc n) postOrder_options iteratee (JArr ys) keyPath stack s =
     (case lodash_map
             (\<lambda>val key. mapDeep_rec n postOrder_options iteratee val (keyPath @ [key])
                (stack @ [JArr ys])) ys s of
        None \<Rightarrow> None
      | Some (ys', s') \<Rightarrow> Some (iteratee (JArr ys') keyPath stack s')) \<and>
   mapDeep_rec (Suc n) postOrder_options iteratee (JObj kws) keyPath stack s =
     (case mapValues
             (\<lambda>val key. mapDeep_rec n postOrder_options iteratee val (keyPath @ [key])
                (stack @ [JObj kws])) kws s of
        None \<Rightarrow> None
      | Some (kws', s') \<Rightarrow> Some (iteratee (JObj kws') keyPath stack s')) \<and>
   (\<not> isObject node \<longrightarrow>
      mapDeep_rec (Suc n) postOrder_options iteratee node keyPath stack s =
        Some (iteratee node keyPath stack s)) \<and>
   (height tree < depth \<longrightarrow>
      (\<exists>r log. mapDeep depth tree (logging f) postOrder_options [] = Some (r, log) \<and>
         length log = nodes tree))"
proof -
  have pre: "\<And>v1. iteratee node keyPath stack s = (v1, s1) \<Longrightarrow>
      mapDeep_rec (Suc n) default_options iteratee node keyPath stack s =
        (case v1 of
           JObj kvs \<Rightarrow>
             (case mapValues
                     (\<lambda>val key. mapDeep_rec n default_options iteratee val (keyPath @ [key])
                        (stack @ [v1])) kvs s1 of
                None \<Rightarrow> None
              | Some (kvs', s') \<Rightarrow> Some (JObj kvs', s'))
         | JArr xs \<Rightarrow>
             (case lodash_map
                     (\<lambda>val key. mapDeep_rec n default_options iteratee val (keyPath @ [key])
                        (stack @ [v1])) xs s1 of
                None \<Rightarrow> None
              | Some (xs', s') \<Rightarrow> Some (JArr xs', s'))
         | _ \<Rightarrow> Some (v1, s1))"
    unfolding preOrder_step by simp
  have a: "iteratee node keyPath stack s = (JArr xs, s1) \<Longrightarrow>
      mapDeep_rec (Suc n) default_options iteratee node keyPath stack s =
        (case lodash_map
                (\<lambda>val key. mapDeep_rec n default_options iteratee val (keyPath @ [key])
                   (stack @ [JArr xs])) xs s1 of
           None \<Rightarrow> None
         | Some (xs', s') \<Rightarrow> Some (JArr xs', s'))"
    using pre[of "JArr xs"] by simp
  have b: "iteratee node keyPath stack s = (JObj kvs, s1) \<Longrightarrow>
      mapDeep_rec (Suc n) default_options iteratee node keyPath stack s =
        (case mapValues
                (\<lambda>val key. mapDeep_rec n default_options iteratee val (keyPath @ [key])
                   (stack @ [JObj kvs])) kvs s1 of
           None \<Rightarrow> None
         | Some (kvs', s') \<Rightarrow> Some (JObj kvs', s'))"
    using pre[of "JObj kvs"] by simp
  have c: "iteratee node keyPath stack s = (replacement, s1) \<Longrightarrow> \<not> isObject replacement \<Longrightarrow>
      mapDeep_rec (Suc n) default_options iteratee node keyPath stack s = Some (replacement, s1)"
    using pre[of replacement]
    by (cases replacement) (simp_all add: isObject_def isArray_def isPlainObject_def)
  have d: "mapDeep_rec (Suc n) postOrder_options iteratee (JArr ys) keyPath stack s =
     (case lodash_map
             (\<lambda>val key. mapDeep_rec n postOrder_options iteratee val (keyPath @ [key])
                (stack @ [JArr ys])) ys s of
        None \<Rightarrow> None
      | Some (ys', s') \<Rightarrow> Some (iteratee (JArr ys') keyPath stack s'))"
    unfolding postOrder_step by (simp split: option.splits)
  have e: "mapDeep_rec (Suc n) postOrder_options iteratee (JObj kws) keyPath stack s =
     (case mapValues
             (\<lambda>val key. mapDeep_rec n postOrder_options iteratee val (keyPath @ [key])
                (stack @ [JObj kws])) kws s of
        None \<Rightarrow> None
      | Some (kws', s') \<Rightarrow> Some (iteratee (JObj kws') keyPath stack s'))"
    unfolding postOrder_step by (simp split: option.splits)
  have g: "\<not> isObject node \<Longrightarrow>
      mapDeep_rec (Suc n) postOrder_options iteratee node keyPath stack s =
        Some (iteratee node keyPath stack s)"
    unfolding postOrder_step
    by (cases "node") (simp_all add: isObject_def isArray_def isPlainObject_def)
  have h: "height tree < depth \<Longrightarrow>
      \<exists>r log. mapDeep depth tree (logging f) postOrder_options [] = Some (r, log) \<and>
         length log = nodes tree"
    using postOrder_counts[of tree depth f "[]" "[]" "[]"] by (simp add: mapDeep_def)
  from a b c d e g h show ?thesis by blast
qed

lemma sample_tree_postOrder:
  "mapDeep 3 sample_tree (logging replace_arrays) postOrder_options [] =
     Some (JObj [(Name ''x'', JNum 10), (Name ''y'', JArr [JNum 99])],
           [([Name ''x''], JNum 1),
            ([Name ''y'', Index 0], JNum 2),
            ([Name ''y'', Index 1], JNum 3),
            ([Name ''y''], JArr [JNum 20, JNum 30]),
            ([], JObj [(Name ''x'', JNum 10), (Name ''y'', JArr [JNum 99])])])"
  by (simp add: mapDeep_def numeral_3_eq_3 sample_tree_def postOrder_options_def logging_def
      replace_arrays_def isArray_def isPlainObject_def lodash_map_def)

lemma sample_tree_preOrder:
  "mapDeep 3 sample_tree (logging replace_arrays) default_options [] =
     Some (JObj [(Name ''x'', JNum 10), (Name ''y'', JArr [JNum 990])],
           [([], JObj [(Name ''x'', JNum 1), (Name ''y'', JArr [JNum 2, JNum 3])]),
            ([Name ''x''], JNum 1),
            ([Name ''y''], JArr [JNum 2, JNum 3]),
            ([Name ''y'', Index 0], JNum 99)])"
  by (simp add: mapDeep_def numeral_3_eq_3 sample_tree_def default_options_def logging_def
      replace_arrays_def isArray_def isPlainObject_def lodash_map_def)

text \<open>
  The example of the specification: the iteratee replaces the array at \<open>y\<close> by \<open>[99]\<close>. In
  pre-order the element \<open>99\<close> of the replacement is visited and mapped to \<open>990\<close>; in
  post-order the five nodes of the input are visited and \<open>99\<close> is not.
\<close>

theorem mapDeep_witness:
  "height sample_tree < 3 \<and>
   (\<exists>r log. mapDeep 3 sample_tree (logging replace_arrays) postOrder_options [] = Some (r, log) \<and>
      length log = nodes sample_tree) \<and>
   nodes sample_tree = 5 \<and>
   mapDeep 3 sample_tree (logging replace_arrays) postOrder_options [] =
     Some (JObj [(Name ''x'', JNum 10), (Name ''y'', JArr [JNum 99])],
           [([Name ''x''], JNum 1),
            ([Name ''y'', Index 0], JNum 2),
            ([Name ''y'', Index 1], JNum 3),
            ([Name ''y''], JArr [JNum 20, JNum 30]),
            ([], JObj [(Name ''x'', JNum 10), (Name ''y'', JArr [JNum 99])])]) \<and>
   mapDeep 3 sample_tree (logging replace_arrays) default_options [] =
     Some (JObj [(Name ''x'', JNum 10), (Name ''y'', JArr [JNum 990])],
           [([], JObj [(Name ''x'', JNum 1), (Name ''y'', JArr [JNum 2, JNum 3])]),
            ([Name ''x''], JNum 1),
            ([Name ''y''], JArr [JNum 2, JNum 3]),
            ([Name ''y'', Index 0], JNum 99)])"
proof -
  have h: "height sample_tree < 3" by (simp add: sample_tree_def)
  have n: "nodes sample_tree = 5" by (simp add: sample_tree_def)
  have "height sample_tree < 3 \<longrightarrow>
      (\<exists>r log. mapDeep 3 sample_tree (logging replace_arrays) postOrder_options [] =
         Some (r, log) \<and> length log = nodes sample_tree)"
    using mapDeep_preOrder_and_postOrder[where tree = sample_tree and depth = 3
      and f = replace_arrays and iteratee = "logging replace_arrays" and node = JNull
      and keyPath = "[]" and stack = "[]" and s = "[]" and ?s1.0 = "[]" and xs = "[]"
      and kvs = "[]" and replacement = JNull and ys = "[]" and kws = "[]" and n = 0]
    by (elim conjE)
  with h have "\<exists>r log. mapDeep 3 sample_tree (logging replace_arrays) postOrder_options [] =
      Some (r, log) \<and> length log = nodes sample_tree"
    by (rule_tac mp)
  then show ?thesis
    using h n sample_tree_postOrder sample_tree_preOrder by blast
qed


section \<open>Properties of the task queue\<close>

lemma limit_gate_first:
  "is_set (limit opts) \<Longrightarrow>
   constructor_runTask opts proto now q =
     (if runCount q < number_of (limit opts)
      then (if is_set (interval opts) then runTaskInterval opts proto now q else proto q)
      else Some q)"
  by (simp add: constructor_runTask_def runTaskLimit_def Let_def)

lemma queue_inv_start:
  assumes "queue_inv opts q" and "runCount q < number_of (limit opts)"
    and "taskQueue q = task # rest"
  shows "queue_inv opts
    (q\<lparr>taskQueue := rest, timeout := None, runCount := runCount q + 1,
       lastRunTime := Some now, running := running q @ [task],
       started := started q @ [task]\<rparr>)"
  using assms by (auto simp: queue_inv_def)

lemma queue_inv_new: "0 \<le> number_of (limit opts) \<Longrightarrow> queue_inv opts new_TaskQueue"
  by (simp add: queue_inv_def new_TaskQueue_def)

lemma executeNextTask_n_inv:
  assumes lim: "is_set (limit opts)"
  shows "queue_inv opts q \<Longrightarrow> length (taskQueue q) < n \<Longrightarrow>
    \<exists>q'. executeNextTask_n n opts now q = Some q' \<and> queue_inv opts q' \<and>
      submitted q' = submitted q \<and>
      (\<not> is_set (interval opts) \<longrightarrow> timeout q' = None \<and>
         (taskQueue q' \<noteq> [] \<longrightarrow> runCount q' = number_of (limit opts)))"
proof (induction n arbitrary: q)
  case 0
  then show ?case by simp
next
  case (Suc n)
  have noint: "\<not> is_set (interval opts) \<Longrightarrow> timeout q = None"
    using Suc.prems(1) by (cases "timeout q") (auto simp: queue_inv_def)
  show ?case
  proof (cases "taskQueue q")
    case Nil
    then show ?thesis using Suc.prems noint by auto
  next
    case (Cons task rest)
    let ?q1 = "q\<lparr>taskQueue := rest, timeout := None, runCount := runCount q + 1,
       lastRunTime := Some now, running := running q @ [task],
       started := started q @ [task]\<rparr>"
    have ne: "taskQueue q \<noteq> []" using Cons by simp
    have unfold: "executeNextTask_n (Suc n) opts now q =
        (if runCount q < number_of (limit opts)
         then (if is_set (interval opts)
               then runTaskInterval opts (protoRunTask (executeNextTask_n n opts now) now) now q
               else protoRunTask (executeNextTask_n n opts now) now q)
         else Some q)"
      using ne lim by (simp add: limit_gate_first)
    have proto: "protoRunTask (executeNextTask_n n opts now) now q =
        executeNextTask_n n opts now ?q1"
      using Cons by (simp add: protoRunTask_def)
    have started: "runCount q < number_of (limit opts) \<Longrightarrow>
        \<exists>q'. executeNextTask_n n opts now ?q1 = Some q' \<and> queue_inv opts q' \<and>
          submitted q' = submitted q \<and>
          (\<not> is_set (interval opts) \<longrightarrow> timeout q' = None \<and>
             (taskQueue q' \<noteq> [] \<longrightarrow> runCount q' = number_of (limit opts)))"
    proof -
      assume lt: "runCount q < number_of (limit opts)"
      have "queue_inv opts ?q1"
        using Suc.prems(1) lt Cons by (rule queue_inv_start)
      moreover have "length (taskQueue ?q1) < n"
        using Suc.prems(2) Cons by simp
      ultimately have "\<exists>q'. executeNextTask_n n opts now ?q1 = Some q' \<and> queue_inv opts q' \<and>
          submitted q' = submitted ?q1 \<and>
          (\<not> is_set (interval opts) \<longrightarrow> timeout q' = None \<and>
             (taskQueue q' \<noteq> [] \<longrightarrow> runCount q' = number_of (limit opts)))"
        by (rule Suc.IH)
      then show ?thesis by simp
    qed
    show ?thesis
    proof (cases "runCount q < number_of (limit opts)")
      case False
      then have "executeNextTask_n (Suc n) opts now q = Some q"
        using unfold by simp
      moreover have "runCount q = number_of (limit opts)"
        using False Suc.prems(1) by (simp add: queue_inv_def)
      ultimately show ?thesis using Suc.prems(1) noint by auto
    next
      case lt: True
      show ?thesis
      proof (cases "is_set (interval opts)")
        case False
        then show ?thesis using unfold lt proto started by simp
      next
        case iv: True
        show ?thesis
        proof (cases "lastRunTime q")
          case None
          then have "executeNextTask_n (Suc n) opts now q = executeNextTask_n n opts now ?q1"
            using unfold lt iv proto by (simp add: runTaskInterval_def)
          then show ?thesis using started lt by simp
        next
          case (Some lastRun)
          show ?thesis
          proof (cases "timeout q")
            case (Some due)
            then have "executeNextTask_n (Suc n) opts now q = Some q"
              using unfold lt iv \<open>lastRunTime q = Some lastRun\<close>
              by (simp add: runTaskInterval_def)
            then show ?thesis using Suc.prems(1) iv by simp
          next
            case None
            show ?thesis
            proof (cases "now - lastRun \<ge> number_of (interval opts)")
              case True
              then have "executeNextTask_n (Suc n) opts now q =
                  executeNextTask_n n opts now ?q1"
                using unfold lt iv proto None \<open>lastRunTime q = Some lastRun\<close>
                by (simp add: runTaskInterval_def)
              then show ?thesis using started lt by simp
            next
              case False
              let ?q2 = "q\<lparr>timeout :=
                Some (now + (number_of (interval opts) - (now - lastRun)))\<rparr>"
              have "executeNextTask_n (Suc n) opts now q = Some ?q2"
                using unfold lt iv None False \<open>lastRunTime q = Some lastRun\<close>
                by (simp add: runTaskInterval_def Let_def)
              moreover have "queue_inv opts ?q2"
                using Suc.prems(1) lt iv ne \<open>lastRunTime q = Some lastRun\<close>
                by (auto simp: queue_inv_def)
              ultimately show ?thesis using iv by simp
            qed
          qed
        qed
      qed
    qed
  qed
qed

lemma executeNextTask_inv:
  "is_set (limit opts) \<Longrightarrow> queue_inv opts q \<Longrightarrow>
   \<exists>q'. executeNextTask opts now q = Some q' \<and> queue_inv opts q' \<and>
     submitted q' = submitted q \<and>
     (\<not> is_set (interval opts) \<longrightarrow> timeout q' = None \<and>
        (taskQueue q' \<noteq> [] \<longrightarrow> runCount q' = number_of (limit opts)))"
  unfolding executeNextTask_def by (rule executeNextTask_n_inv) simp_all

lemma queue_inv_push:
  "queue_inv opts q \<Longrightarrow>
   queue_inv opts (q\<lparr>taskQueue := taskQueue q @ [submitted q], submitted := submitted q + 1\<rparr>)"
  by (auto simp: queue_inv_def sorted_wrt_append less_Suc_eq)

lemma queue_inv_settle:
  "queue_inv opts q \<Longrightarrow> task \<in> set (running q) \<Longrightarrow>
   queue_inv opts (q\<lparr>runCount := runCount q - 1, running := remove1 task (running q)\<rparr>)"
  by (auto simp: queue_inv_def length_remove1 in_set_conv_nth
      dest!: length_pos_if_in_set[of task])

lemma queue_inv_clear: "queue_inv opts q \<Longrightarrow> queue_inv opts (clearQueue q)"
  by (auto simp: queue_inv_def clearQueue_def sorted_wrt_append)

lemma step_inv:
  assumes lim: "is_set (limit opts)" and inv: "queue_inv opts q"
    and st: "step opts e q = Some q'"
  shows "queue_inv opts q' \<and>
     (\<not> is_set (interval opts) \<longrightarrow> timeout q' = None \<and>
        (taskQueue q' \<noteq> [] \<longrightarrow> runCount q' = number_of (limit opts)))"
proof -
  obtain now ev where e: "e = (now, ev)" by (cases e)
  show ?thesis
  proof (cases ev)
    case AddTask
    let ?q0 = "q\<lparr>taskQueue := taskQueue q @ [submitted q], submitted := submitted q + 1\<rparr>"
    have "queue_inv opts ?q0" using inv by (rule queue_inv_push)
    from executeNextTask_inv[OF lim this, of now] st e AddTask
    show ?thesis by (auto simp: addTask_def)
  next
    case (Settled task)
    with st e have mem: "task \<in> set (running q)"
      by (auto simp: task_settled_def split: if_splits)
    let ?q0 = "q\<lparr>runCount := runCount q - 1, running := remove1 task (running q)\<rparr>"
    have "queue_inv opts ?q0" using inv mem by (rule queue_inv_settle)
    from executeNextTask_inv[OF lim this, of now] st e Settled mem
    show ?thesis by (auto simp: task_settled_def)
  next
    case TimerFired
    with st e obtain due where due: "timeout q = Some due"
      by (cases "timeout q") (auto simp: timer_fired_def)
    with inv have lt: "runCount q < number_of (limit opts)" and ne: "taskQueue q \<noteq> []"
      and iv: "is_set (interval opts)"
      by (auto simp: queue_inv_def)
    from ne obtain task rest where tq: "taskQueue q = task # rest"
      by (cases "taskQueue q") auto
    let ?q1 = "q\<lparr>taskQueue := rest, timeout := None, runCount := runCount q + 1,
       lastRunTime := Some now, running := running q @ [task],
       started := started q @ [task]\<rparr>"
    have "queue_inv opts ?q1" using inv lt tq by (rule queue_inv_start)
    from executeNextTask_inv[OF lim this, of now] st e TimerFired due tq iv
    show ?thesis
      by (auto simp: timer_fired_def protoRunTask_def split: if_splits)
  next
    case ClearQueue
    with st e have "q' = clearQueue q" by simp
    then show ?thesis
      using queue_inv_clear[OF inv] by (simp add: clearQueue_def)
  qed
qed

lemma run_events_inv:
  assumes lim: "is_set (limit opts)"
  shows "queue_inv opts q \<Longrightarrow> run_events opts events q = Some q' \<Longrightarrow> queue_inv opts q'"
proof (induction events arbitrary: q)
  case Nil
  then show ?case by simp
next
  case (Cons e es)
  from Cons.prems(2) obtain q1 where s: "step opts e q = Some q1"
    and r: "run_events opts es q1 = Some q'"
    by (auto split: option.splits)
  from step_inv[OF lim Cons.prems(1) s] have "queue_inv opts q1" by simp
  then show ?case using r by (rule Cons.IH)
qed






text \<open>
  Claim C2, as the code has it. In a queue constructed with both a limit and an
  interval, a start attempt evaluates the limit gate first: when no slot is free nothing
  else happens, and no timer is set. Only when a slot is free is the interval gate
  evaluated: it starts the head of the queue when no task has run yet or the interval
  has passed and no timer is pending, sets a timer for the end of the interval when it
  has not passed, and does nothing while a timer is pending. So the attempt calls the
  starting function only when both gates pass. After every sequence of events the number
  of running tasks equals \<open>runCount\<close> and is within the limit, and the tasks started
  so far, followed by the waiting ones, are in the order of their submission. A pending
  timer is only found in states where a slot is free, a task is waiting, and the timer is
  due at the end of the interval after the last start. And when the timer fires and
  starts the head of the queue without evaluating a gate, both gates would pass: a slot
  is free, a task is waiting, the interval since the last start has passed, and the
  running tasks stay within the limit afterwards.
\<close>

theorem limit_gate_then_interval_gate:
  "(is_set (limit opts) \<and> is_set (interval opts) \<longrightarrow>
      constructor_runTask opts proto now q =
        (if \<not> runCount q < number_of (limit opts) then Some q
         else case lastRunTime q of
                None \<Rightarrow> proto q
              | Some lastRun \<Rightarrow>
                  (case timeout q of
                     Some due \<Rightarrow> Some q
                   | None \<Rightarrow>
                       if now - lastRun \<ge> number_of (interval opts) then proto q
                       else Some (q\<lparr>timeout := Some (lastRun + number_of (interval opts))\<rparr>)))) \<and>
   (0 < number_of (limit opts) \<and> is_set (interval opts) \<and>
    run_events opts events new_TaskQueue = Some q' \<longrightarrow>
      runCount q' = int (length (running q')) \<and>
      int (length (running q')) \<le> number_of (limit opts) \<and>
      sorted_wrt (<) (started q' @ taskQueue q')) \<and>
   (0 < number_of (limit opts) \<and> is_set (interval opts) \<and>
    run_events opts events new_TaskQueue = Some q' \<and> timeout q' = Some due' \<longrightarrow>
      runCount q' < number_of (limit opts) \<and> taskQueue q' \<noteq> [] \<and>
      lastRunTime q' = Some (due' - number_of (interval opts))) \<and>
   (0 < number_of (limit opts) \<and> is_set (interval opts) \<and>
    run_events opts events new_TaskQueue = Some q' \<and> timer_fired opts now' q' = Some q'' \<longrightarrow>
      runCount q' < number_of (limit opts) \<and> taskQueue q' \<noteq> [] \<and>
      (\<exists>lastRun. lastRunTime q' = Some lastRun \<and>
         number_of (interval opts) \<le> now' - lastRun) \<and>
      runCount q'' = int (length (running q'')) \<and>
      int (length (running q'')) \<le> number_of (limit opts))"
proof -
  have a: "is_set (limit opts) \<and> is_set (interval opts) \<longrightarrow>
      constructor_runTask opts proto now q =
        (if \<not> runCount q < number_of (limit opts) then Some q
         else case lastRunTime q of
                None \<Rightarrow> proto q
              | Some lastRun \<Rightarrow>
                  (case timeout q of
                     Some due \<Rightarrow> Some q
                   | None \<Rightarrow>
                       if now - lastRun \<ge> number_of (interval opts) then proto q
                       else Some (q\<lparr>timeout := Some (lastRun + number_of (interval opts))\<rparr>)))"
    by (auto simp: limit_gate_first runTaskInterval_def Let_def split: option.splits)
  have reach: "is_set (limit opts) \<and> queue_inv opts q'"
    if h: "0 < number_of (limit opts)" "run_events opts events new_TaskQueue = Some q'"
  proof -
    have lim: "is_set (limit opts)"
      using h(1) by (cases "limit opts") (auto simp: is_set_def number_of_def)
    have "queue_inv opts new_TaskQueue"
      using h(1) by (intro queue_inv_new) simp
    then have "queue_inv opts q'"
      using h(2) by (rule run_events_inv[OF lim])
    with lim show ?thesis by simp
  qed
  have b: "runCount q' = int (length (running q')) \<and>
      int (length (running q')) \<le> number_of (limit opts) \<and>
      sorted_wrt (<) (started q' @ taskQueue q')"
    if "0 < number_of (limit opts)" "run_events opts events new_TaskQueue = Some q'"
    using reach[OF that] by (simp add: queue_inv_def)
  have c: "runCount q' < number_of (limit opts) \<and> taskQueue q' \<noteq> [] \<and>
      lastRunTime q' = Some (due' - number_of (interval opts))"
    if "0 < number_of (limit opts)" "run_events opts events new_TaskQueue = Some q'"
      "timeout q' = Some due'"
    using reach[OF that(1,2)] that(3) by (simp add: queue_inv_def)
  have d: "runCount q' < number_of (limit opts) \<and> taskQueue q' \<noteq> [] \<and>
      (\<exists>lastRun. lastRunTime q' = Some lastRun \<and>
         number_of (interval opts) \<le> now' - lastRun) \<and>
      runCount q'' = int (length (running q'')) \<and>
      int (length (running q'')) \<le> number_of (limit opts)"
    if h: "0 < number_of (limit opts)" "run_events opts events new_TaskQueue = Some q'"
      "timer_fired opts now' q' = Some q''"
  proof -
    from reach[OF h(1,2)] have lim: "is_set (limit opts)" and inv: "queue_inv opts q'"
      by simp_all
    from h(3) obtain due where due: "timeout q' = Some due" and late: "\<not> now' < due"
      by (cases "timeout q'") (auto simp: timer_fired_def split: if_splits)
    from inv due have pre: "runCount q' < number_of (limit opts)" "taskQueue q' \<noteq> []"
      "lastRunTime q' = Some (due - number_of (interval opts))"
      by (simp_all add: queue_inv_def)
    have gap: "number_of (interval opts) \<le> now' - (due - number_of (interval opts))"
      using late by simp
    have "step opts (now', TimerFired) q' = Some q''" using h(3) by simp
    from step_inv[OF lim inv this] have "queue_inv opts q''" by simp
    then have post: "runCount q'' = int (length (running q''))"
      "int (length (running q'')) \<le> number_of (limit opts)"
      by (simp_all add: queue_inv_def)
    from pre gap post show ?thesis by blast
  qed
  from a b c d show ?thesis by blast
qed

lemma gated_events_run:
  "run_events limit_one_interval_hundred
     [(0, AddTask), (10, AddTask), (20, Settled 0)] new_TaskQueue =
   Some \<lparr>runCount = 0, lastRunTime = Some 0, timeout = Some 100, taskQueue = [1],
         running = [], started = [0], submitted = 2\<rparr>"
  by (simp add: limit_one_interval_hundred_def new_TaskQueue_def
      addTask_def task_settled_def executeNextTask_def constructor_runTask_def
      runTaskLimit_def runTaskInterval_def protoRunTask_def is_set_def number_of_def)

lemma gated_timer_run:
  "timer_fired limit_one_interval_hundred 120
     \<lparr>runCount = 0, lastRunTime = Some 0, timeout = Some 100, taskQueue = [1],
      running = [], started = [0], submitted = 2\<rparr> =
   Some \<lparr>runCount = 1, lastRunTime = Some 120, timeout = None, taskQueue = [],
         running = [1], started = [0, 1], submitted = 2\<rparr>"
  by (simp add: limit_one_interval_hundred_def timer_fired_def
      executeNextTask_def protoRunTask_def)

text \<open>
  A queue with limit 1 and interval 100: the second job, submitted at time 10 while the
  first runs, fails the limit gate and no timer is set; when the first job settles at
  time 20 the limit gate passes, the interval gate sets the timer for time 100, and the
  job still waits; the timer fires at time 120 and starts it, 120 after the last start,
  and one task is running.
\<close>

theorem limit_gate_then_interval_gate_witness:
  "constructor_runTask limit_one_interval_hundred
     (protoRunTask (executeNextTask limit_one_interval_hundred 10) 10) 10 busy_queue =
     Some busy_queue \<and>
   run_events limit_one_interval_hundred
     [(0, AddTask), (10, AddTask), (20, Settled 0)] new_TaskQueue =
     Some \<lparr>runCount = 0, lastRunTime = Some 0, timeout = Some 100, taskQueue = [1],
           running = [], started = [0], submitted = 2\<rparr> \<and>
   timer_fired limit_one_interval_hundred 120
     \<lparr>runCount = 0, lastRunTime = Some 0, timeout = Some 100, taskQueue = [1],
      running = [], started = [0], submitted = 2\<rparr> =
     Some \<lparr>runCount = 1, lastRunTime = Some 120, timeout = None, taskQueue = [],
           running = [1], started = [0, 1], submitted = 2\<rparr> \<and>
   (0::int) < 1 \<and> [1::nat] \<noteq> [] \<and> Some (0::int) = Some (100 - 100) \<and>
   (100::int) \<le> 120 - 0 \<and> int (length [1::nat]) \<le> 1 \<and>
   sorted_wrt (<) ([0] @ [1::nat])"
proof -
  let ?o = limit_one_interval_hundred
  let ?q = "\<lparr>runCount = 0, lastRunTime = Some 0, timeout = Some 100, taskQueue = [1],
           running = [], started = [0], submitted = 2\<rparr>"
  let ?r = "\<lparr>runCount = 1, lastRunTime = Some 120, timeout = None, taskQueue = [],
           running = [1], started = [0, 1], submitted = 2\<rparr>"
  have s: "is_set (limit ?o)" "is_set (interval ?o)" "0 < number_of (limit ?o)"
    by (simp_all add: limit_one_interval_hundred_def is_set_def number_of_def)
  note th = limit_gate_then_interval_gate[where opts = ?o
      and proto = "protoRunTask (executeNextTask ?o 10) 10" and now = 10 and q = busy_queue
      and events = "[(0, AddTask), (10, AddTask), (20, Settled 0)]" and q' = ?q
      and due' = 100 and now' = 120 and q'' = ?r]
  have a: "constructor_runTask ?o (protoRunTask (executeNextTask ?o 10) 10) 10 busy_queue =
      Some busy_queue"
    using th s by (simp add: busy_queue_def limit_one_interval_hundred_def number_of_def)
  have b: "runCount ?q < number_of (limit ?o) \<and> taskQueue ?q \<noteq> [] \<and>
      lastRunTime ?q = Some (100 - number_of (interval ?o))"
    using th s gated_events_run by simp
  have c: "sorted_wrt (<) (started ?q @ taskQueue ?q)"
    using th s gated_events_run by simp
  have d: "(\<exists>lastRun. lastRunTime ?q = Some lastRun \<and>
        number_of (interval ?o) \<le> 120 - lastRun) \<and>
      int (length (running ?r)) \<le> number_of (limit ?o)"
    using th s gated_events_run gated_timer_run by simp
  from a b c d gated_events_run gated_timer_run show ?thesis
    by (simp add: limit_one_interval_hundred_def number_of_def)
qed

text \<open>
  Claim C2 as stated fails: were the interval gate evaluated first, the attempt made at
  time 10 on the busy queue would set the timer; the code leaves the queue as it is.
\<close>

theorem interval_gate_is_not_first:
  "run_events limit_one_interval_hundred [(0, AddTask), (10, AddTask)] new_TaskQueue =
     Some busy_queue \<and>
   constructor_runTask limit_one_interval_hundred
     (protoRunTask (executeNextTask limit_one_interval_hundred 10) 10) 10 busy_queue =
     Some busy_queue \<and>
   interval_first_runTask limit_one_interval_hundred
     (protoRunTask (executeNextTask limit_one_interval_hundred 10) 10) 10 busy_queue =
     Some (busy_queue\<lparr>timeout := Some 100\<rparr>) \<and>
   busy_queue \<noteq> busy_queue\<lparr>timeout := Some 100\<rparr>"
  by (simp add: constructor_runTask_def interval_first_runTask_def runTaskLimit_def
      runTaskInterval_def limit_one_interval_hundred_def busy_queue_def is_set_def
      number_of_def new_TaskQueue_def addTask_def executeNextTask_def protoRunTask_def)


end
